theory Spec2Isabelle
  imports Complex_Main "HOL-Library.Multiset"
begin

section \<open>Text, errors and the host language\<close>

text \<open>
  A Python \<open>str\<close> is a sequence of Unicode code points. The inputs of the module contain
  code points far beyond one byte (currency symbols, emoji), so a character is modelled as its
  code point, a natural number, and a string as a list of them. \<open>ustr\<close> turns an ASCII
  literal into such a string.
\<close>

type_synonym cp = nat
type_synonym ustring = "cp list"

definition ustr :: "string \<Rightarrow> ustring" where
  "ustr s = map of_char s"

text \<open>The exceptions the module can raise, as values.\<close>

datatype error =
    ReError
  | ZeroDivisionError
  | KeyError
  | ValueError
  | TypeError
  | AttributeError
  | OverflowError

section \<open>\<open>collections.Counter\<close> and \<open>sorted\<close>\<close>

text \<open>
  \<open>Counter(xs)\<close> counts the elements of \<open>xs\<close> from left to right; as a dict it keeps its keys in
  the order of their first insertion, and \<open>.items()\<close> lists the (key, count) pairs in that order.
\<close>

fun counter_add :: "'a \<Rightarrow> ('a \<times> nat) list \<Rightarrow> ('a \<times> nat) list" where
  "counter_add x [] = [(x, 1)]"
| "counter_add x ((y, n) # ps) =
     (if x = y then (y, Suc n) # ps else (y, n) # counter_add x ps)"

definition Counter_items :: "'a list \<Rightarrow> ('a \<times> nat) list" where
  "Counter_items xs = fold counter_add xs []"

text \<open>
  \<open>sorted(xs, key=f)\<close> is a stable sort by ascending key. With \<open>reverse=True\<close> the list is
  reversed, sorted stably and reversed again, so that the keys descend and elements with equal
  keys keep their original order.
\<close>

definition sorted_by :: "('a \<Rightarrow> 'k::linorder) \<Rightarrow> 'a list \<Rightarrow> 'a list" where
  "sorted_by f xs = sort_key f xs"

definition sorted_by_reverse :: "('a \<Rightarrow> 'k::linorder) \<Rightarrow> 'a list \<Rightarrow> 'a list" where
  "sorted_by_reverse f xs = rev (sort_key f (rev xs))"

text \<open>The position of the first occurrence of a value in a list (its length when absent).\<close>

definition first_index :: "'a list \<Rightarrow> 'a \<Rightarrow> nat" where
  "first_index xs v = length (takeWhile (\<lambda>y. y \<noteq> v) xs)"

section \<open>The generic engine \<open>extract\<close>\<close>

text \<open>
  The arguments of \<open>extract\<close>. \<open>text_list\<close> is a list of strings or a single string;
  \<open>regex\<close> is a pattern source or a compiled pattern. The only method of a compiled pattern that
  the module calls is \<open>findall\<close>, so a compiled pattern is modelled by that function. A source
  is given by what \<open>re.compile\<close> makes of it: the compiled pattern, or \<open>None\<close> when the source is
  malformed and \<open>re.compile\<close> raises \<open>re.error\<close>. \<open>extracted\<close> is \<open>None\<close> or a list of match
  lists. The result type \<open>'m\<close> of \<open>findall\<close> is left open (a string, or a tuple of strings for a
  pattern with several groups).
\<close>

datatype text_arg = Single ustring | Many "ustring list"

datatype 'm regex_arg = Source "(ustring \<Rightarrow> 'm list) option" | Compiled "ustring \<Rightarrow> 'm list"

text \<open>
  A number in the \<open>overview\<close> dict: an \<open>int\<close>, or the result of the true division \<open>a / b\<close> of
  two ints. Python returns the float nearest to the quotient; the model keeps the quotient itself,
  a rational.
\<close>

datatype number = IntV int | RatioV rat

text \<open>
  The summary is a dict whose keys are computed from \<open>key_name\<close>. The six keys of the outer
  dict are pairwise different for every \<open>key_name\<close> (\<open>summary_keys_distinct\<close> below), so the
  outer dict is a record with one field per key: \<open>F_s\<close> for \<open>key_name + 's'\<close>, \<open>F_s_flat\<close> for
  \<open>key_name + 's_flat'\<close>, \<open>F_counts\<close> for \<open>key_name + '_counts'\<close>, \<open>F_freq\<close> for
  \<open>key_name + '_freq'\<close>, \<open>top_F_s\<close> for \<open>'top_' + key_name + 's'\<close> and \<open>overview\<close>.
  The keys of the inner \<open>overview\<close> dict can coincide, so it stays a dict: a map from keys to
  numbers, filled in the order of the dict display (a later entry replaces an earlier one with
  the same key).
\<close>

record 'm summary =
  F_s :: "'m list list"
  F_s_flat :: "'m list"
  F_counts :: "nat list"
  F_freq :: "(nat \<times> nat) list"
  top_F_s :: "('m \<times> nat) list"
  overview :: "ustring \<rightharpoonup> number"

definition summary_keys :: "ustring \<Rightarrow> ustring list" where
  "summary_keys key_name =
     [key_name @ ustr ''s'',
      key_name @ ustr ''s'' @ ustr ''_flat'',
      key_name @ ustr ''_counts'',
      key_name @ ustr ''_freq'',
      ustr ''top_'' @ key_name @ ustr ''s'',
      ustr ''overview'']"

definition text_records :: "text_arg \<Rightarrow> ustring list" where
  "text_records text_list = (case text_list of Single t \<Rightarrow> [t] | Many ts \<Rightarrow> ts)"

text \<open>\<open>if isinstance(regex, str): regex = re.compile(regex)\<close>\<close>

definition compile_arg :: "'m regex_arg \<Rightarrow> error + (ustring \<Rightarrow> 'm list)" where
  "compile_arg regex =
     (case regex of
        Source compiled \<Rightarrow> (case compiled of None \<Rightarrow> Inl ReError | Some p \<Rightarrow> Inr p)
      | Compiled p \<Rightarrow> Inr p)"

text \<open>\<open>not extracted\<close>: true for \<open>None\<close> and for the empty list.\<close>

definition not_extracted :: "'m list list option \<Rightarrow> bool" where
  "not_extracted extracted = (case extracted of None \<Rightarrow> True | Some e \<Rightarrow> e = [])"

definition make_overview :: "ustring \<Rightarrow> nat \<Rightarrow> 'm list \<Rightarrow> (ustring \<rightharpoonup> number)" where
  "make_overview key_name num_posts flat =
     [ustr ''num_posts'' \<mapsto> IntV (int num_posts),
      (ustr ''num_'' @ key_name @ ustr ''s'') \<mapsto> IntV (int (length flat)),
      (key_name @ ustr ''s'' @ ustr ''_per_post'') \<mapsto>
         RatioV (of_nat (length flat) / of_nat num_posts),
      (ustr ''unique_'' @ key_name @ ustr ''s'') \<mapsto> IntV (int (card (set flat)))]"

text \<open>
  \<open>extract\<close> (named \<open>extract_generic\<close> here, \<open>extract\<close> being a keyword of Isabelle), in
  the order of the source: the pattern is compiled, a single string becomes a
  one-element list, the matches are computed from the lowercased records unless a non-empty
  \<open>extracted\<close> is given, and the summary is built. The division \<open>len(flat) / len(text_list)\<close>
  raises \<open>ZeroDivisionError\<close> when there is no record. \<open>lower\<close> is \<open>str.lower\<close>.
\<close>

definition extract_generic ::
  "(ustring \<Rightarrow> ustring) \<Rightarrow> text_arg \<Rightarrow> 'm regex_arg \<Rightarrow> ustring \<Rightarrow> 'm list list option \<Rightarrow>
   error + 'm summary" where
  "extract_generic lower text_list regex key_name extracted =
     (case compile_arg regex of
        Inl e \<Rightarrow> Inl e
      | Inr findall \<Rightarrow>
          let records = text_records text_list;
              extracted' = (if not_extracted extracted
                            then map (\<lambda>text. findall (lower text)) records
                            else the extracted);
              flat = concat extracted'
          in if length records = 0 then Inl ZeroDivisionError
             else Inr \<lparr> F_s = extracted',
                        F_s_flat = flat,
                        F_counts = map length extracted',
                        F_freq = sorted_by fst (Counter_items (map length extracted')),
                        top_F_s = sorted_by_reverse snd (Counter_items flat),
                        overview = make_overview key_name (length records) flat \<rparr>)"


section \<open>Patterns\<close>

text \<open>
  The extractors build their patterns at run time and hand them to the \<open>re\<close> module. The model
  holds the fragment of \<open>re\<close> that these patterns use, as syntax trees:
  a character item (a literal, \<open>.\<close>, \<open>\S\<close>, or a set of characters), a greedy repetition
  \<open>x{lo,hi}\<close> of a character item (\<open>x*\<close> is \<open>x{0,}\<close>), the word boundary \<open>\b\<close>, the
  backreference \<open>\n\<close>, the capturing group number \<open>n\<close>, concatenation and alternation. What
  the host decides for each code point is a parameter: \<open>str.lower\<close>, the equality of two
  characters under \<open>re.IGNORECASE\<close>, and the classes \<open>\s\<close> and \<open>\w\<close>.
\<close>

record host =
  str_lower :: "ustring \<Rightarrow> ustring"
  ci_equal :: "cp \<Rightarrow> cp \<Rightarrow> bool"
  is_space :: "cp \<Rightarrow> bool"
  is_word :: "cp \<Rightarrow> bool"

datatype cclass = Lit cp | AnyChar | NonSpace | CharSet "cp \<Rightarrow> bool"

datatype rx =
    Eps
  | Chr cclass
  | Rep cclass nat "nat option"
  | WordB
  | Backref nat
  | Grp nat rx
  | Seq rx rx
  | Alt rx rx

text \<open>A compiled pattern: the tree and the flag \<open>re.IGNORECASE\<close>.\<close>

record pattern =
  ignorecase :: bool
  body :: rx

text \<open>What \<open>findall\<close> returns for one match: a string, or a tuple of strings.\<close>

datatype pmatch = MStr ustring | MTuple "ustring list"

text \<open>
  \<open>.\<close> matches every character but the newline; the module compiles no character set with
  \<open>re.IGNORECASE\<close>, so a set is read as it stands.
\<close>

fun cmatch :: "host \<Rightarrow> bool \<Rightarrow> cclass \<Rightarrow> cp \<Rightarrow> bool" where
  "cmatch h ic (Lit c) x = (if ic then ci_equal h x c else x = c)"
| "cmatch h ic AnyChar x = (x \<noteq> 10)"
| "cmatch h ic NonSpace x = (\<not> is_space h x)"
| "cmatch h ic (CharSet P) x = P x"

text \<open>
  The state of a match attempt is the position in the text and the groups captured so far. The
  backtracking matcher of \<open>re\<close> explores the ways a pattern can match in a fixed order and takes
  the first that succeeds; \<open>matches\<close> lists the end states of all of them in that order: the
  longest repetition first, the left alternative first.
\<close>

type_synonym mstate = "nat \<times> (nat \<rightharpoonup> ustring)"

definition at_boundary :: "host \<Rightarrow> ustring \<Rightarrow> nat \<Rightarrow> bool" where
  "at_boundary h t pos =
     ((0 < pos \<and> pos \<le> length t \<and> is_word h (t ! (pos - 1))) \<noteq>
      (pos < length t \<and> is_word h (t ! pos)))"

definition same_text :: "host \<Rightarrow> bool \<Rightarrow> ustring \<Rightarrow> ustring \<Rightarrow> bool" where
  "same_text h ic a b = (length a = length b \<and> list_all2 (\<lambda>x c. cmatch h ic (Lit c) x) a b)"

fun matches :: "host \<Rightarrow> bool \<Rightarrow> ustring \<Rightarrow> rx \<Rightarrow> mstate \<Rightarrow> mstate list" where
  "matches h ic t Eps (pos, caps) = [(pos, caps)]"
| "matches h ic t (Chr c) (pos, caps) =
     (if pos < length t \<and> cmatch h ic c (t ! pos) then [(pos + 1, caps)] else [])"
| "matches h ic t (Rep c lo hi) (pos, caps) =
     (let n = length (takeWhile (cmatch h ic c) (drop pos t));
          m = (case hi of None \<Rightarrow> n | Some k \<Rightarrow> min n k)
      in map (\<lambda>i. (pos + i, caps)) (rev [lo ..< Suc m]))"
| "matches h ic t WordB (pos, caps) = (if at_boundary h t pos then [(pos, caps)] else [])"
| "matches h ic t (Backref g) (pos, caps) =
     (case caps g of
        None \<Rightarrow> []
      | Some w \<Rightarrow>
          if pos + length w \<le> length t \<and> same_text h ic (take (length w) (drop pos t)) w
          then [(pos + length w, caps)] else [])"
| "matches h ic t (Grp g r) (pos, caps) =
     map (\<lambda>(e, caps'). (e, caps'(g \<mapsto> take (e - pos) (drop pos t))))
       (matches h ic t r (pos, caps))"
| "matches h ic t (Seq r1 r2) st = concat (map (matches h ic t r2) (matches h ic t r1 st))"
| "matches h ic t (Alt r1 r2) st = matches h ic t r1 st @ matches h ic t r2 st"

text \<open>The number of capturing groups of a pattern; they are numbered from 1.\<close>

fun groups :: "rx \<Rightarrow> nat" where
  "groups (Grp g r) = Suc (groups r)"
| "groups (Seq r1 r2) = groups r1 + groups r2"
| "groups (Alt r1 r2) = groups r1 + groups r2"
| "groups r = 0"

text \<open>
  The item \<open>findall\<close> returns for a match from \<open>s\<close> to \<open>e\<close>: the matched text when the pattern
  has no group, the group when it has one, the tuple of the groups otherwise; a group that took
  no part in the match counts as the empty string.
\<close>

definition group_text :: "(nat \<rightharpoonup> ustring) \<Rightarrow> nat \<Rightarrow> ustring" where
  "group_text caps g = (case caps g of None \<Rightarrow> [] | Some w \<Rightarrow> w)"

definition match_item :: "rx \<Rightarrow> ustring \<Rightarrow> nat \<Rightarrow> mstate \<Rightarrow> pmatch" where
  "match_item r t s st =
     (case st of (e, caps) \<Rightarrow>
        if groups r = 0 then MStr (take (e - s) (drop s t))
        else if groups r = 1 then MStr (group_text caps 1)
        else MTuple (map (group_text caps) [1 ..< Suc (groups r)]))"


text \<open>
  No match of a pattern ends before it starts; the scan of \<open>findall\<close> below terminates by it.
\<close>

lemma matches_mono:
  "(e, caps') \<in> set (matches h ic t r (pos, caps)) \<Longrightarrow> pos \<le> e"
proof (induction r arbitrary: pos caps e caps')
  case (Seq r1 r2)
  then show ?case by (fastforce dest: order_trans)
qed (auto split: if_splits option.splits simp: Let_def)

text \<open>
  \<open>findall\<close> scans the text from left to right. At each start position it takes the first way
  the pattern matches there; without one it moves on by one character. After a match the scan
  goes on from the end of the match, and after an empty match the next match from the same
  position must not be empty again (\<open>must_advance\<close>).
\<close>

function findall_from :: "host \<Rightarrow> pattern \<Rightarrow> ustring \<Rightarrow> nat \<Rightarrow> bool \<Rightarrow> pmatch list" where
  "findall_from h p t pos must_advance =
     (if length t < pos then []
      else case filter (\<lambda>(e, caps). \<not> (must_advance \<and> e = pos))
                  (matches h (ignorecase p) t (body p) (pos, Map.empty)) of
             [] \<Rightarrow> findall_from h p t (Suc pos) False
           | st # _ \<Rightarrow>
               match_item (body p) t pos st # findall_from h p t (fst st) (fst st = pos))"
  by pat_completeness auto
termination
proof (relation "measure (\<lambda>(h, p, t, pos, ma). 2 * (Suc (length t) - pos) + (if ma then 0 else 1))",
       goal_cases)
  case 1
  then show ?case by simp
next
  case (2 h p t pos ma)
  then show ?case by (auto split: if_splits)
next
  case (3 h p t pos ma st rest)
  then have "st \<in> set (filter (\<lambda>(e, caps). \<not> (ma \<and> e = pos))
                  (matches h (ignorecase p) t (body p) (pos, Map.empty)))"
    by simp
  then have mem: "st \<in> set (matches h (ignorecase p) t (body p) (pos, Map.empty))"
    and adv: "\<not> (ma \<and> fst st = pos)"
    by (auto split: prod.splits)
  from mem have "pos \<le> fst st"
    using matches_mono [of "fst st" "snd st"] by simp
  with adv 3(1) show ?case by (auto split: if_splits)
qed

declare findall_from.simps [simp del]

definition re_findall :: "host \<Rightarrow> pattern \<Rightarrow> ustring \<Rightarrow> pmatch list" where
  "re_findall h p t = findall_from h p t 0 False"

text \<open>
  A host for texts in ASCII, on which it agrees with Python: \<open>str.lower\<close> and the case-blind
  comparison fold \<open>A\<close> to \<open>Z\<close>, \<open>\s\<close> holds the ASCII whitespace, \<open>\w\<close> the ASCII letters, the
  digits and the underscore.
\<close>

definition ascii_lower :: "cp \<Rightarrow> cp" where
  "ascii_lower c = (if 65 \<le> c \<and> c \<le> 90 then c + 32 else c)"

definition ascii_space :: "cp \<Rightarrow> bool" where
  "ascii_space c = ((9 \<le> c \<and> c \<le> 13) \<or> (28 \<le> c \<and> c \<le> 32))"

definition ascii_word :: "cp \<Rightarrow> bool" where
  "ascii_word c = ((48 \<le> c \<and> c \<le> 57) \<or> (65 \<le> c \<and> c \<le> 90) \<or> c = 95 \<or> (97 \<le> c \<and> c \<le> 122))"

definition ascii_host :: host where
  "ascii_host = \<lparr> str_lower = map ascii_lower,
                  ci_equal = (\<lambda>a b. ascii_lower a = ascii_lower b),
                  is_space = ascii_space,
                  is_word = ascii_word \<rparr>"

section \<open>The extractors\<close>

subsection \<open>\<open>extract_words\<close>\<close>

text \<open>
  The pattern sources \<open>r'\b' + x + r'\b'\<close> and \<open>r'\S*' + x + r'\S*'\<close>, joined by \<open>|\<close> and compiled
  with \<open>re.IGNORECASE\<close>. A word \<open>x\<close> is spliced into the source as it is; the model reads it as
  the sequence of its characters, which is what \<open>re\<close> makes of a word without characters that
  are special in a pattern.
\<close>

fun lit :: "ustring \<Rightarrow> rx" where
  "lit [] = Eps"
| "lit (c # cs) = Seq (Chr (Lit c)) (lit cs)"

fun alternation :: "rx list \<Rightarrow> rx" where
  "alternation [] = Eps"
| "alternation [r] = r"
| "alternation (r # rs) = Alt r (alternation rs)"

definition extract_words :: "host \<Rightarrow> ustring list \<Rightarrow> text_arg \<Rightarrow> bool \<Rightarrow> error + pmatch summary" where
  "extract_words h text_list words_to_extract entire_words_only =
     (let words = text_records words_to_extract;
          text_list' = map (str_lower h) text_list;
          words' = map (str_lower h) words;
          regex = (if entire_words_only
                   then map (\<lambda>x. Seq WordB (Seq (lit x) WordB)) words'
                   else map (\<lambda>x. Seq (Rep NonSpace 0 None) (Seq (lit x) (Rep NonSpace 0 None))) words');
          word_regex = \<lparr> ignorecase = True, body = alternation regex \<rparr>
      in extract_generic (str_lower h) (Many text_list') (Compiled (re_findall h word_regex))
           (ustr ''word'') None)"

subsection \<open>\<open>extract_intense_words\<close>\<close>

text \<open>
  The pattern \<open>r'(\S*)(\S)({}\S*)'.format((min_reps - 1) * r'\2')\<close>; a string times a negative
  number is the empty string. \<open>''.join(x)\<close> concatenates the groups of a match.
\<close>

fun repeat_rx :: "nat \<Rightarrow> rx \<Rightarrow> rx" where
  "repeat_rx 0 r = Eps"
| "repeat_rx (Suc n) r = Seq r (repeat_rx n r)"

definition intense_regex :: "int \<Rightarrow> pattern" where
  "intense_regex min_reps =
     \<lparr> ignorecase = False,
       body = Seq (Grp 1 (Rep NonSpace 0 None))
                (Seq (Grp 2 (Chr NonSpace))
                   (Grp 3 (Seq (repeat_rx (nat (min_reps - 1)) (Backref 2)) (Rep NonSpace 0 None)))) \<rparr>"

fun join :: "pmatch \<Rightarrow> pmatch" where
  "join (MTuple ws) = MStr (concat ws)"
| "join (MStr w) = MStr w"

definition extract_intense_words :: "host \<Rightarrow> ustring list \<Rightarrow> int \<Rightarrow> error + pmatch summary" where
  "extract_intense_words h text_list min_reps =
     (let regex = intense_regex min_reps;
          extracted = map (\<lambda>text. map join (re_findall h regex text)) text_list
      in extract_generic (str_lower h) (Many text_list) (Compiled (re_findall h regex))
           (ustr ''intense_word'') (Some extracted))"

subsection \<open>\<open>extract_currency\<close>\<close>

text \<open>
  \<open>CURRENCY\<close> and \<open>CURRENCY_RAW\<close> come from the module \<open>regex\<close>, which is not part of the
  sources at hand: the compiled pattern and the tree of the source fragment are parameters, and
  so is \<open>unicodedata.name\<close>, which has no value (and raises \<open>ValueError\<close>) for a character
  without a name and raises \<open>TypeError\<close> for anything but a string of one character.
  \<open>left_chars\<close> and \<open>right_chars\<close> are counts, natural numbers; \<open>re.compile\<close> refuses a
  repetition count from \<open>MAXREPEAT\<close> on with \<open>OverflowError\<close>.
\<close>

definition MAXREPEAT :: nat where
  "MAXREPEAT = 4294967295"

fun try_map :: "('a \<Rightarrow> error + 'b) \<Rightarrow> 'a list \<Rightarrow> error + 'b list" where
  "try_map f [] = Inr []"
| "try_map f (x # xs) =
     (case f x of
        Inl e \<Rightarrow> Inl e
      | Inr y \<Rightarrow> (case try_map f xs of Inl e \<Rightarrow> Inl e | Inr ys \<Rightarrow> Inr (y # ys)))"

fun char_name :: "host \<Rightarrow> (cp \<Rightarrow> ustring option) \<Rightarrow> pmatch \<Rightarrow> error + ustring" where
  "char_name h name (MStr [c]) =
     (case name c of None \<Rightarrow> Inl ValueError | Some n \<Rightarrow> Inr (str_lower h n))"
| "char_name h name m = Inl TypeError"

record currency_summary = "pmatch summary" +
  currency_symbol_names :: "ustring list list"
  surrounding_text :: "pmatch list list"

definition surrounding_text_regex :: "rx \<Rightarrow> nat \<Rightarrow> nat \<Rightarrow> pattern" where
  "surrounding_text_regex CURRENCY_RAW left_chars right_chars =
     \<lparr> ignorecase = False,
       body = Seq (Rep AnyChar 0 (Some left_chars))
                (Seq CURRENCY_RAW (Rep AnyChar 0 (Some right_chars))) \<rparr>"

definition extract_currency ::
  "host \<Rightarrow> (cp \<Rightarrow> ustring option) \<Rightarrow> pattern \<Rightarrow> rx \<Rightarrow> ustring list \<Rightarrow> nat \<Rightarrow> nat \<Rightarrow>
   error + currency_summary" where
  "extract_currency h name CURRENCY CURRENCY_RAW text_list left_chars right_chars =
     (case extract_generic (str_lower h) (Many text_list) (Compiled (re_findall h CURRENCY))
             (ustr ''currency_symbol'') None of
        Inl e \<Rightarrow> Inl e
      | Inr summary \<Rightarrow>
          (case try_map (try_map (char_name h name)) (F_s summary) of
             Inl e \<Rightarrow> Inl e
           | Inr names \<Rightarrow>
               if MAXREPEAT \<le> left_chars \<or> MAXREPEAT \<le> right_chars then Inl OverflowError
               else Inr \<lparr> F_s = F_s summary,
                          F_s_flat = F_s_flat summary,
                          F_counts = F_counts summary,
                          F_freq = F_freq summary,
                          top_F_s = top_F_s summary,
                          overview = overview summary,
                          currency_symbol_names = names,
                          surrounding_text =
                            map (re_findall h
                                  (surrounding_text_regex CURRENCY_RAW left_chars right_chars))
                              text_list \<rparr>))"

subsection \<open>\<open>extract_urls\<close>\<close>

text \<open>
  \<open>URL\<close> comes from the absent module \<open>regex\<close>: the \<open>findall\<close> of the compiled pattern is a
  parameter. \<open>netloc\<close> is \<open>urlparse(u).netloc\<close>, with \<open>None\<close> where \<open>urlparse\<close> raises
  \<open>ValueError\<close>. A match that is not a string has no method \<open>lower\<close>.
\<close>

definition startswith :: "ustring \<Rightarrow> ustring \<Rightarrow> bool" where
  "startswith s prefix = (take (length prefix) s = prefix)"

definition prefix_http :: "host \<Rightarrow> ustring \<Rightarrow> ustring" where
  "prefix_http h url =
     (if startswith (str_lower h url) (ustr ''www'') \<or> startswith (str_lower h url) (ustr ''ftp'')
      then ustr ''http://'' @ url else url)"

fun normalize_url :: "host \<Rightarrow> pmatch \<Rightarrow> error + pmatch" where
  "normalize_url h (MStr url) = Inr (MStr (prefix_http h url))"
| "normalize_url h (MTuple ws) = Inl AttributeError"

fun url_netloc :: "(ustring \<Rightarrow> ustring option) \<Rightarrow> pmatch \<Rightarrow> error + ustring" where
  "url_netloc netloc (MStr u) = (case netloc u of None \<Rightarrow> Inl ValueError | Some d \<Rightarrow> Inr d)"
| "url_netloc netloc (MTuple ws) = Inl TypeError"

text \<open>\<open>d.split('.')[-1]\<close>: what follows the last dot, the whole string when there is none.\<close>

definition last_label :: "ustring \<Rightarrow> ustring" where
  "last_label d = rev (takeWhile (\<lambda>c. c \<noteq> 46) (rev d))"

record url_summary = "pmatch summary" +
  top_domains :: "(ustring \<times> nat) list"
  top_tlds :: "(ustring \<times> nat) list"

text \<open>
  The first lines of \<open>extract_urls\<close>: the matches of every record, rewritten in place
  (\<open>normalized_urls\<close>), and the local \<open>domains\<close>, the network location of every rewritten
  match (\<open>url_domains\<close>).
\<close>

definition normalized_urls ::
  "host \<Rightarrow> (ustring \<Rightarrow> pmatch list) \<Rightarrow> ustring list \<Rightarrow> error + pmatch list list" where
  "normalized_urls h URL text_list = try_map (try_map (normalize_url h)) (map URL text_list)"

definition url_domains ::
  "host \<Rightarrow> (ustring \<Rightarrow> ustring option) \<Rightarrow> (ustring \<Rightarrow> pmatch list) \<Rightarrow> ustring list \<Rightarrow>
   error + ustring list list" where
  "url_domains h netloc URL text_list =
     (case normalized_urls h URL text_list of
        Inl e \<Rightarrow> Inl e
      | Inr extracted \<Rightarrow> try_map (try_map (url_netloc netloc)) extracted)"

definition extract_urls ::
  "host \<Rightarrow> (ustring \<Rightarrow> ustring option) \<Rightarrow> (ustring \<Rightarrow> pmatch list) \<Rightarrow> ustring list \<Rightarrow>
   error + url_summary" where
  "extract_urls h netloc URL text_list =
     (case normalized_urls h URL text_list of
        Inl e \<Rightarrow> Inl e
      | Inr extracted \<Rightarrow>
          (case url_domains h netloc URL text_list of
             Inl e \<Rightarrow> Inl e
           | Inr domains \<Rightarrow>
               let domains_flat = concat domains;
                   top_domains' = sorted_by_reverse snd (Counter_items domains_flat);
                   tlds = map (map last_label) domains;
                   tlds_flat = concat tlds;
                   top_tlds' = sorted_by_reverse snd (Counter_items tlds_flat)
               in (case extract_generic (str_lower h) (Many text_list) (Compiled URL)
                          (ustr ''url'') (Some extracted) of
                     Inl e \<Rightarrow> Inl e
                   | Inr summary \<Rightarrow>
                       Inr \<lparr> F_s = F_s summary,
                             F_s_flat = F_s_flat summary,
                             F_counts = F_counts summary,
                             F_freq = F_freq summary,
                             top_F_s = top_F_s summary,
                             overview = overview summary,
                             top_domains = top_domains',
                             top_tlds = top_tlds' \<rparr>)))"

text \<open>
  The network location that \<open>urllib.parse.urlparse\<close> finds in a URL of ASCII characters: after
  the scheme, if there is one, the text between \<open>//\<close> and the next \<open>/\<close>, \<open>?\<close> or \<open>#\<close>. A net
  location with one square bracket but not the other is refused (\<open>ValueError\<close>).
\<close>

definition scheme_char :: "cp \<Rightarrow> bool" where
  "scheme_char c = ((97 \<le> c \<and> c \<le> 122) \<or> (65 \<le> c \<and> c \<le> 90) \<or> (48 \<le> c \<and> c \<le> 57) \<or>
                    c = 43 \<or> c = 45 \<or> c = 46)"

definition split_netloc :: "ustring \<Rightarrow> ustring option" where
  "split_netloc url =
     (if take 2 url = ustr ''//''
      then let loc = takeWhile (\<lambda>c. c \<noteq> 47 \<and> c \<noteq> 63 \<and> c \<noteq> 35) (drop 2 url)
           in if (91 \<in> set loc) \<noteq> (93 \<in> set loc) then None else Some loc
      else Some [])"

definition urlparse_netloc :: "ustring \<Rightarrow> ustring option" where
  "urlparse_netloc url =
     (let i = length (takeWhile (\<lambda>c. c \<noteq> 58) url);
          rest = drop (Suc i) url
      in if 0 < i \<and> i < length url \<and> list_all scheme_char (take i url) \<and>
            (take i url = ustr ''http'' \<or> rest = [] \<or> \<not> list_all (\<lambda>c. 48 \<le> c \<and> c \<le> 57) rest)
         then split_netloc rest
         else split_netloc url)"


subsection \<open>\<open>extract_emoji\<close>\<close>

text \<open>
  \<open>EMOJI\<close> and \<open>EMOJI_ENTRIES\<close> come from the absent module \<open>emoji\<close>; both are parameters:
  what \<open>re.findall(EMOJI, text)\<close> returns for a text, and the table, a dict from an emoji to
  its entry. \<open>EMOJI_ENTRIES[em]\<close> raises \<open>KeyError\<close> for a key that the dict does not hold.
\<close>

record emoji_entry =
  entry_name :: ustring
  entry_group :: ustring
  entry_sub_group :: ustring

fun emoji_lookup :: "(ustring \<rightharpoonup> emoji_entry) \<Rightarrow> pmatch \<Rightarrow> error + emoji_entry" where
  "emoji_lookup EMOJI_ENTRIES (MStr em) =
     (case EMOJI_ENTRIES em of None \<Rightarrow> Inl KeyError | Some entry \<Rightarrow> Inr entry)"
| "emoji_lookup EMOJI_ENTRIES (MTuple ws) = Inl KeyError"

record emoji_summary =
  emoji :: "pmatch list list"
  emoji_text :: "ustring list list"
  emoji_flat :: "pmatch list"
  emoji_flat_text :: "ustring list"
  emoji_counts :: "nat list"
  emoji_freq :: "(nat \<times> nat) list"
  top_emoji :: "(pmatch \<times> nat) list"
  top_emoji_text :: "(ustring \<times> nat) list"
  top_emoji_groups :: "(ustring \<times> nat) list"
  top_emoji_sub_groups :: "(ustring \<times> nat) list"
  emoji_overview :: "ustring \<rightharpoonup> number"

definition extract_emoji ::
  "host \<Rightarrow> (ustring \<Rightarrow> pmatch list) \<Rightarrow> (ustring \<rightharpoonup> emoji_entry) \<Rightarrow> ustring list \<Rightarrow>
   error + emoji_summary" where
  "extract_emoji h EMOJI EMOJI_ENTRIES text_list =
     (let emoji' = map (\<lambda>text. EMOJI (str_lower h text)) text_list;
          emoji_flat' = concat emoji'
      in case try_map (emoji_lookup EMOJI_ENTRIES) emoji_flat' of
           Inl e \<Rightarrow> Inl e
         | Inr entries \<Rightarrow>
             let emoji_flat_text' = map entry_name entries;
                 emoji_groups = map entry_group entries;
                 emoji_sub_groups = map entry_sub_group entries
             in (case try_map (try_map (emoji_lookup EMOJI_ENTRIES)) emoji' of
                   Inl e \<Rightarrow> Inl e
                 | Inr per_record \<Rightarrow>
                     if length text_list = 0 then Inl ZeroDivisionError
                     else Inr \<lparr> emoji = emoji',
                                emoji_text = map (map entry_name) per_record,
                                emoji_flat = emoji_flat',
                                emoji_flat_text = emoji_flat_text',
                                emoji_counts = map length emoji',
                                emoji_freq = sorted_by fst (Counter_items (map length emoji')),
                                top_emoji = sorted_by_reverse snd (Counter_items emoji_flat'),
                                top_emoji_text =
                                  sorted_by_reverse snd (Counter_items emoji_flat_text'),
                                top_emoji_groups =
                                  sorted_by_reverse snd (Counter_items emoji_groups),
                                top_emoji_sub_groups =
                                  sorted_by_reverse snd (Counter_items emoji_sub_groups),
                                emoji_overview =
                                  [ustr ''num_posts'' \<mapsto> IntV (int (length text_list)),
                                   ustr ''num_emoji'' \<mapsto> IntV (int (length emoji_flat')),
                                   ustr ''emoji_per_post'' \<mapsto>
                                     RatioV (of_nat (length emoji_flat') / of_nat (length text_list)),
                                   ustr ''unique_emoji'' \<mapsto> IntV (int (card (set emoji_flat')))] \<rparr>))"

section \<open>Tokens and runs\<close>

text \<open>
  The words in which the specification describes \<open>extract_intense_words\<close>: the tokens of a
  text are its maximal runs of characters that are not whitespace, and a token has a run of
  \<open>k\<close> when some character stands in it \<open>k\<close> times in a row.
\<close>

function tokens :: "(cp \<Rightarrow> bool) \<Rightarrow> ustring \<Rightarrow> ustring list" where
  "tokens sp [] = []"
| "tokens sp (c # cs) =
     (if sp c then tokens sp cs
      else (c # takeWhile (\<lambda>x. \<not> sp x) cs) # tokens sp (dropWhile (\<lambda>x. \<not> sp x) cs))"
  by pat_completeness auto
termination
  by (relation "measure (\<lambda>(sp, t). length t)") (auto simp: less_Suc_eq_le length_dropWhile_le)

fun has_run :: "nat \<Rightarrow> 'a list \<Rightarrow> bool" where
  "has_run k [] = False"
| "has_run k (c # cs) = (take k (c # cs) = replicate k c \<or> has_run k cs)"

section \<open>Facts about \<open>Counter\<close> and \<open>sorted\<close>\<close>

lemma counter_add_keys:
  "map fst (counter_add x ps) = (if x \<in> fst ` set ps then map fst ps else map fst ps @ [x])"
  by (induction ps) force+

lemma counter_add_sum:
  "sum_list (map snd (counter_add x ps)) = Suc (sum_list (map snd ps))"
  by (induction ps) auto

lemma Counter_items_snoc: "Counter_items (xs @ [x]) = counter_add x (Counter_items xs)"
  by (simp add: Counter_items_def)

lemma Counter_items_Nil: "Counter_items [] = []"
  by (simp add: Counter_items_def)

lemma Counter_items_sum: "sum_list (map snd (Counter_items xs)) = length xs"
  by (induction xs rule: rev_induct) (simp_all add: Counter_items_Nil Counter_items_snoc counter_add_sum)

lemma Counter_items_keys_set: "fst ` set (Counter_items xs) = set xs"
proof (induction xs rule: rev_induct)
  case Nil
  then show ?case by (simp add: Counter_items_Nil)
next
  case (snoc x xs)
  have "set (map fst (Counter_items (xs @ [x]))) = insert x (set (map fst (Counter_items xs)))"
    unfolding Counter_items_snoc counter_add_keys by auto
  with snoc show ?case by simp
qed

lemma Counter_items_distinct: "distinct (map fst (Counter_items xs))"
proof (induction xs rule: rev_induct)
  case Nil
  then show ?case by (simp add: Counter_items_Nil)
next
  case (snoc x xs)
  then show ?case
    unfolding Counter_items_snoc counter_add_keys by auto
qed

lemma counter_add_count:
  "map_of (counter_add x ps) v =
     (if v = x then Some (case map_of ps x of None \<Rightarrow> 1 | Some n \<Rightarrow> Suc n) else map_of ps v)"
  by (induction ps) auto

lemma Counter_items_count:
  "map_of (Counter_items xs) v = (if v \<in> set xs then Some (count_list xs v) else None)"
proof (induction xs arbitrary: v rule: rev_induct)
  case Nil
  then show ?case by (simp add: Counter_items_Nil)
next
  case (snoc x xs)
  show ?case
    unfolding Counter_items_snoc
    by (auto simp: counter_add_count snoc count_list_0_iff)
qed

lemma Counter_items_entry:
  assumes "(v, n) \<in> set (Counter_items xs)"
  shows "n = count_list xs v" "v \<in> set xs"
proof -
  from assms have "map_of (Counter_items xs) v = Some n"
    by (simp add: Counter_items_distinct)
  then show "n = count_list xs v" "v \<in> set xs"
    by (auto simp: Counter_items_count split: if_splits)
qed

lemma first_index_snoc_old: "a \<in> set xs \<Longrightarrow> first_index (xs @ [x]) a = first_index xs a"
  by (simp add: first_index_def takeWhile_append1)

lemma first_index_less: "a \<in> set xs \<Longrightarrow> first_index xs a < length xs"
  unfolding first_index_def by (induction xs) auto

lemma first_index_snoc_new: "x \<notin> set xs \<Longrightarrow> first_index (xs @ [x]) x = length xs"
  unfolding first_index_def by (induction xs) auto

lemma Counter_items_order:
  "sorted_wrt (\<lambda>a b. first_index xs a < first_index xs b) (map fst (Counter_items xs))"
proof (induction xs rule: rev_induct)
  case Nil
  then show ?case by (simp add: Counter_items_Nil)
next
  case (snoc x xs)
  let ?ks = "map fst (Counter_items xs)"
  have ks: "set ?ks = set xs" using Counter_items_keys_set [of xs] by simp
  have old: "sorted_wrt (\<lambda>a b. first_index (xs @ [x]) a < first_index (xs @ [x]) b) ?ks"
    by (rule sorted_wrt_mono_rel [OF _ snoc])
      (simp add: Counter_items_keys_set first_index_snoc_old)
  show ?case
  proof (cases "x \<in> set xs")
    case True
    then show ?thesis
      unfolding Counter_items_snoc counter_add_keys using old ks by auto
  next
    case False
    then show ?thesis
      unfolding Counter_items_snoc counter_add_keys using old ks
      by (auto simp: sorted_wrt_append first_index_snoc_old first_index_snoc_new first_index_less)
  qed
qed

lemma sorted_by_reverse_desc: "sorted_wrt (\<lambda>a b. f a \<ge> f b) (sorted_by_reverse f xs)"
proof -
  have "sorted (map f (sort_key f (rev xs)))" by simp
  then have "sorted_wrt (\<lambda>a b. f a \<le> f b) (sort_key f (rev xs))"
    by (simp add: sorted_map)
  then show ?thesis
    unfolding sorted_by_reverse_def by (simp add: sorted_wrt_rev)
qed

lemma sorted_by_reverse_stable:
  "filter (\<lambda>y. f y = k) (sorted_by_reverse f xs) = filter (\<lambda>y. f y = k) xs"
  unfolding sorted_by_reverse_def
  by (simp add: rev_filter [symmetric] sort_key_stable)

lemma sorted_by_reverse_mset: "mset (sorted_by_reverse f xs) = mset xs"
  by (simp add: sorted_by_reverse_def)

lemma sorted_wrt_filter_nth:
  "sorted_wrt R (filter P xs) \<Longrightarrow> i < j \<Longrightarrow> j < length xs \<Longrightarrow> P (xs ! i) \<Longrightarrow> P (xs ! j)
   \<Longrightarrow> R (xs ! i) (xs ! j)"
proof (induction xs arbitrary: i j)
  case Nil
  then show ?case by simp
next
  case (Cons x xs)
  show ?case
  proof (cases i)
    case 0
    with Cons.prems obtain j' where j: "j = Suc j'" "j' < length xs" by (cases j) auto
    with Cons.prems 0 have "xs ! j' \<in> set (filter P xs)" by auto
    with Cons.prems 0 j show ?thesis by auto
  next
    case (Suc i')
    with Cons.prems obtain j' where j: "j = Suc j'" "j' < length xs" "i' < j'" by (cases j) auto
    have "sorted_wrt R (filter P xs)" using Cons.prems(1) by (auto split: if_splits)
    from Cons.IH [OF this j(3) j(2)] Cons.prems Suc j show ?thesis by simp
  qed
qed


lemma key_neq_by_length: "length a \<noteq> length b \<Longrightarrow> a \<noteq> b"
  by auto

lemma key_neq_by_last: "a \<noteq> [] \<Longrightarrow> b \<noteq> [] \<Longrightarrow> last a \<noteq> last b \<Longrightarrow> a \<noteq> b"
  by auto

lemma summary_keys_distinct: "distinct (summary_keys key_name)"
proof -
  have "key_name @ ustr ''_freq'' \<noteq> ustr ''top_'' @ key_name @ ustr ''s''"
    by (rule key_neq_by_last) (simp_all add: ustr_def)
  moreover have "k @ ustr ''s'' \<noteq> ustr ''overview''" for k :: ustring
    by (rule key_neq_by_last) (simp_all add: ustr_def)
  moreover have "k @ ustr ''_flat'' \<noteq> ustr ''overview''" for k :: ustring
    by (rule key_neq_by_last) (simp_all add: ustr_def)
  moreover have "k @ ustr ''_counts'' \<noteq> ustr ''overview''" for k :: ustring
    by (rule key_neq_by_last) (simp_all add: ustr_def)
  moreover have "k @ ustr ''_freq'' \<noteq> ustr ''overview''" for k :: ustring
    by (rule key_neq_by_last) (simp_all add: ustr_def)
  moreover have "key_name @ ustr ''s'' \<noteq> ustr ''top_'' @ key_name @ ustr ''s''"
    "key_name @ ustr ''s'' @ ustr ''_flat'' \<noteq> ustr ''top_'' @ key_name @ ustr ''s''"
    "key_name @ ustr ''_counts'' \<noteq> ustr ''top_'' @ key_name @ ustr ''s''"
    by (rule key_neq_by_length, simp add: ustr_def)+
  moreover have "ustr ''top_'' @ key_name @ ustr ''s'' \<noteq> ustr ''overview''"
    using calculation(2) [of "ustr ''top_'' @ key_name"] by simp
  ultimately show ?thesis
    by (simp add: summary_keys_def) (simp add: ustr_def)
qed


section \<open>The summary of the generic engine\<close>

lemma overview_keys_distinct:
  assumes "key_name \<noteq> ustr ''post''"
  shows "distinct [ustr ''num_posts'', ustr ''num_'' @ key_name @ ustr ''s'',
                   key_name @ ustr ''s'' @ ustr ''_per_post'', ustr ''unique_'' @ key_name @ ustr ''s'']"
proof -
  have "ustr ''num_posts'' \<noteq> ustr ''num_'' @ key_name @ ustr ''s''"
    using assms by (auto simp: ustr_def)
  moreover have "ustr ''num_posts'' \<noteq> key_name @ ustr ''s'' @ ustr ''_per_post''"
    "ustr ''num_'' @ key_name @ ustr ''s'' \<noteq> key_name @ ustr ''s'' @ ustr ''_per_post''"
    "key_name @ ustr ''s'' @ ustr ''_per_post'' \<noteq> ustr ''unique_'' @ key_name @ ustr ''s''"
    by (rule key_neq_by_length, simp add: ustr_def)+
  ultimately show ?thesis by (simp add: ustr_def)
qed

lemma extract_generic_returns:
  assumes "text_records text_list \<noteq> []" and "compile_arg regex = Inr p"
  shows "extract_generic lower text_list regex key_name extracted =
    Inr \<lparr> F_s = (if not_extracted extracted
                   then map (\<lambda>text. p (lower text)) (text_records text_list)
                   else the extracted),
          F_s_flat = concat (if not_extracted extracted
                   then map (\<lambda>text. p (lower text)) (text_records text_list)
                   else the extracted),
          F_counts = map length (if not_extracted extracted
                   then map (\<lambda>text. p (lower text)) (text_records text_list)
                   else the extracted),
          F_freq = sorted_by fst (Counter_items (map length (if not_extracted extracted
                   then map (\<lambda>text. p (lower text)) (text_records text_list)
                   else the extracted))),
          top_F_s = sorted_by_reverse snd (Counter_items (concat (if not_extracted extracted
                   then map (\<lambda>text. p (lower text)) (text_records text_list)
                   else the extracted))),
          overview = make_overview key_name (length (text_records text_list))
             (concat (if not_extracted extracted
                   then map (\<lambda>text. p (lower text)) (text_records text_list)
                   else the extracted)) \<rparr>"
  using assms by (simp add: extract_generic_def Let_def)

lemma extract_generic_Inr:
  assumes "extract_generic lower text_list regex key_name extracted = Inr s"
  shows "text_records text_list \<noteq> [] \<and> (\<exists>p. compile_arg regex = Inr p)"
  using assms by (auto simp: extract_generic_def Let_def split: sum.splits if_splits)

lemma extract_generic_fields:
  assumes "extract_generic lower text_list regex key_name extracted = Inr s"
  shows "F_s_flat s = concat (F_s s)"
    and "F_counts s = map length (F_s s)"
    and "top_F_s s = sorted_by_reverse snd (Counter_items (F_s_flat s))"
    and "F_freq s = sorted_by fst (Counter_items (F_counts s))"
    and "overview s = make_overview key_name (length (text_records text_list)) (F_s_flat s)"
    and "not_extracted extracted \<Longrightarrow> compile_arg regex = Inr p \<Longrightarrow>
         F_s s = map (\<lambda>text. p (lower text)) (text_records text_list)"
    and "\<not> not_extracted extracted \<Longrightarrow> F_s s = the extracted"
  using assms by (auto simp: extract_generic_def Let_def split: sum.splits if_splits)




lemma ranking_sorted:
  "sorted_wrt (\<lambda>a b. snd a > snd b \<or>
                (snd a = snd b \<and> first_index xs (fst a) < first_index xs (fst b)))
     (sorted_by_reverse snd (Counter_items xs))"
proof -
  let ?c = "Counter_items xs"
  let ?top = "sorted_by_reverse snd ?c"
  have desc: "sorted_wrt (\<lambda>a b. snd a \<ge> snd b) ?top" by (rule sorted_by_reverse_desc)
  have ord: "sorted_wrt (\<lambda>a b. first_index xs (fst a) < first_index xs (fst b)) ?c"
    using Counter_items_order [of xs] by (simp add: sorted_wrt_map)
  show ?thesis
    unfolding sorted_wrt_iff_nth_less
  proof (intro allI impI)
    fix i j assume ij: "i < j" "j < length ?top"
    from desc ij have ge: "snd (?top ! i) \<ge> snd (?top ! j)"
      by (simp add: sorted_wrt_iff_nth_less)
    show "snd (?top ! i) > snd (?top ! j) \<or>
          (snd (?top ! i) = snd (?top ! j) \<and>
           first_index xs (fst (?top ! i)) < first_index xs (fst (?top ! j)))"
    proof (cases "snd (?top ! i) = snd (?top ! j)")
      case True
      let ?k = "snd (?top ! j)"
      have "sorted_wrt (\<lambda>a b. first_index xs (fst a) < first_index xs (fst b))
              (filter (\<lambda>y. snd y = ?k) ?c)"
        using ord by (rule sorted_wrt_filter)
      then have "sorted_wrt (\<lambda>a b. first_index xs (fst a) < first_index xs (fst b))
              (filter (\<lambda>y. snd y = ?k) ?top)"
        by (simp add: sorted_by_reverse_stable)
      from sorted_wrt_filter_nth [OF this ij True refl] True show ?thesis by simp
    next
      case False
      with ge show ?thesis by simp
    qed
  qed
qed

text \<open>
  C2. For every non-empty record collection, the ranking \<open>top_F_s\<close> of the summary that
  \<open>extract\<close> returns lists (value, frequency) pairs with the frequencies descending; the
  frequencies add up to the length of the flat list; and of two values with the same frequency
  the one that occurs first in the flat list comes first.
\<close>

theorem top_ranking:
  assumes "text_records text_list \<noteq> []" and "compile_arg regex = Inr p"
  shows "\<exists>s. extract_generic lower text_list regex key_name extracted = Inr s \<and>
           sorted_wrt (\<lambda>a b. snd a \<ge> snd b) (top_F_s s) \<and>
           sum_list (map snd (top_F_s s)) = length (F_s_flat s) \<and>
           (\<forall>i j. i < j \<and> j < length (top_F_s s) \<and> snd (top_F_s s ! i) = snd (top_F_s s ! j) \<longrightarrow>
              first_index (F_s_flat s) (fst (top_F_s s ! i))
                < first_index (F_s_flat s) (fst (top_F_s s ! j))) \<and>
           distinct (map fst (top_F_s s)) \<and>
           (\<forall>v n. (v, n) \<in> set (top_F_s s) \<longleftrightarrow> v \<in> set (F_s_flat s) \<and> n = count_list (F_s_flat s) v)"
proof -
  obtain s where s: "extract_generic lower text_list regex key_name extracted = Inr s"
    using extract_generic_returns [OF assms] by blast
  let ?flat = "F_s_flat s"
  have top: "top_F_s s = sorted_by_reverse snd (Counter_items ?flat)"
    by (rule extract_generic_fields(3) [OF s])
  have m: "mset (top_F_s s) = mset (Counter_items ?flat)"
    unfolding top by (rule sorted_by_reverse_mset)
  have 1: "sorted_wrt (\<lambda>a b. snd a \<ge> snd b) (top_F_s s)"
    unfolding top by (rule sorted_by_reverse_desc)
  have "mset (map snd (top_F_s s)) = mset (map snd (Counter_items ?flat))"
    using m by simp
  then have "sum_list (map snd (top_F_s s)) = sum_list (map snd (Counter_items ?flat))"
    by (metis sum_mset_sum_list)
  then have 2: "sum_list (map snd (top_F_s s)) = length ?flat"
    by (simp add: Counter_items_sum)
  have 3: "\<forall>i j. i < j \<and> j < length (top_F_s s) \<and> snd (top_F_s s ! i) = snd (top_F_s s ! j) \<longrightarrow>
              first_index ?flat (fst (top_F_s s ! i)) < first_index ?flat (fst (top_F_s s ! j))"
    using ranking_sorted [of ?flat] unfolding top [symmetric] sorted_wrt_iff_nth_less by fastforce
  have "mset (map fst (top_F_s s)) = mset (map fst (Counter_items ?flat))"
    using m by simp
  then have 4: "distinct (map fst (top_F_s s))"
    using Counter_items_distinct [of ?flat] by (metis mset_eq_imp_distinct_iff)
  have set_eq: "set (top_F_s s) = set (Counter_items ?flat)"
    using m by (rule mset_eq_setD)
  have 5: "(v, n) \<in> set (top_F_s s) \<longleftrightarrow> v \<in> set ?flat \<and> n = count_list ?flat v" for v n
  proof
    assume "(v, n) \<in> set (top_F_s s)"
    then show "v \<in> set ?flat \<and> n = count_list ?flat v"
      unfolding set_eq using Counter_items_entry [of v n ?flat] by simp
  next
    assume a: "v \<in> set ?flat \<and> n = count_list ?flat v"
    then have "map_of (Counter_items ?flat) v = Some n" by (simp add: Counter_items_count)
    then show "(v, n) \<in> set (top_F_s s)" unfolding set_eq by (rule map_of_SomeD)
  qed
  from s 1 2 3 4 5 show ?thesis by blast
qed

theorem top_ranking_witness:
  "\<exists>s. extract_generic (map ascii_lower) (Many [ustr ''b a'', ustr ''c a''])
          (Compiled (\<lambda>t. filter (\<lambda>c. c \<noteq> 32) t)) (ustr ''k'') None = Inr s \<and>
        top_F_s s = [(97, 2), (98, 1), (99, 1)] \<and>
        sum_list (map snd (top_F_s s)) = length (F_s_flat s)"
proof -
  let ?tl = "Many [ustr ''b a'', ustr ''c a'']"
  let ?p = "\<lambda>t :: ustring. filter (\<lambda>c. c \<noteq> 32) t"
  have ne: "text_records ?tl \<noteq> []" by (simp add: text_records_def)
  have c: "compile_arg (Compiled ?p) = Inr ?p" by (simp add: compile_arg_def)
  from top_ranking [OF ne c, of "map ascii_lower" "ustr ''k''" None]
  obtain s where s: "extract_generic (map ascii_lower) ?tl (Compiled ?p) (ustr ''k'') None = Inr s"
    and sum: "sum_list (map snd (top_F_s s)) = length (F_s_flat s)" by blast
  have ev: "sorted_by_reverse snd (Counter_items (concat
      (map (\<lambda>text. ?p (map ascii_lower text)) [ustr ''b a'', ustr ''c a'']))) =
      [(97, 2), (98, 1), (99, 1)]"
    by code_simp
  have "F_s s = map (\<lambda>text. ?p (map ascii_lower text)) (text_records ?tl)"
    using extract_generic_fields(6) [OF s _ c] by (simp add: not_extracted_def)
  then have "top_F_s s = sorted_by_reverse snd (Counter_items (concat
      (map (\<lambda>text. ?p (map ascii_lower text)) [ustr ''b a'', ustr ''c a''])))"
    unfolding extract_generic_fields(3) [OF s] extract_generic_fields(1) [OF s]
    by (simp only: text_records_def text_arg.case)
  then have "top_F_s s = [(97, 2), (98, 1), (99, 1)]"
    by (simp only: ev)
  with s sum show ?thesis by blast
qed




text \<open>
  C10. \<open>extract\<close> chooses the path of the precomputed matches by their truth value: with the
  empty list for \<open>extracted\<close> it returns what it returns without \<open>extracted\<close>, the matches
  being those of the pattern on the lowercased records, and only a non-empty \<open>extracted\<close>
  takes the place of the pattern's matches.
\<close>

theorem extracted_truthiness:
  "extract_generic lower text_list regex key_name (Some []) =
     extract_generic lower text_list regex key_name None \<and>
   (\<forall>p s. compile_arg regex = Inr p \<and>
          extract_generic lower text_list regex key_name None = Inr s \<longrightarrow>
          F_s s = map (\<lambda>text. p (lower text)) (text_records text_list)) \<and>
   (\<forall>e s. e \<noteq> [] \<and> extract_generic lower text_list regex key_name (Some e) = Inr s \<longrightarrow>
          F_s s = e)"
proof (intro conjI allI impI)
  show "extract_generic lower text_list regex key_name (Some []) =
     extract_generic lower text_list regex key_name None"
    by (simp add: extract_generic_def not_extracted_def Let_def split: sum.splits)
next
  fix p s
  assume "compile_arg regex = Inr p \<and> extract_generic lower text_list regex key_name None = Inr s"
  then show "F_s s = map (\<lambda>text. p (lower text)) (text_records text_list)"
    using extract_generic_fields(6) [of lower text_list regex key_name None s p]
    by (simp add: not_extracted_def)
next
  fix e s
  assume "e \<noteq> [] \<and> extract_generic lower text_list regex key_name (Some e) = Inr s"
  then show "F_s s = e"
    using extract_generic_fields(7) [of lower text_list regex key_name "Some e" s]
    by (simp add: not_extracted_def)
qed

theorem extracted_truthiness_witness:
  "extract_generic (map ascii_lower) (Many [ustr ''Ab'']) (Compiled (\<lambda>t. [t])) (ustr ''k'') (Some [])
     = extract_generic (map ascii_lower) (Many [ustr ''Ab'']) (Compiled (\<lambda>t. [t])) (ustr ''k'') None \<and>
   (\<exists>s. extract_generic (map ascii_lower) (Many [ustr ''Ab'']) (Compiled (\<lambda>t. [t])) (ustr ''k'') None
          = Inr s \<and> F_s s = [[ustr ''ab'']]) \<and>
   (\<exists>s. extract_generic (map ascii_lower) (Many [ustr ''Ab'']) (Compiled (\<lambda>t. [t])) (ustr ''k'')
          (Some [[ustr ''x'']]) = Inr s \<and> F_s s = [[ustr ''x'']])"
proof -
  let ?tl = "Many [ustr ''Ab'']"
  let ?p = "\<lambda>t :: ustring. [t]"
  have ne: "text_records ?tl \<noteq> []" by (simp add: text_records_def)
  have c: "compile_arg (Compiled ?p) = Inr ?p" by (simp add: compile_arg_def)
  note t = extracted_truthiness [of "map ascii_lower" ?tl "Compiled ?p" "ustr ''k''"]
  obtain s1 where s1: "extract_generic (map ascii_lower) ?tl (Compiled ?p) (ustr ''k'') None = Inr s1"
    using extract_generic_returns [OF ne c] by blast
  obtain s2 where s2: "extract_generic (map ascii_lower) ?tl (Compiled ?p) (ustr ''k'')
      (Some [[ustr ''x'']]) = Inr s2"
    using extract_generic_returns [OF ne c] by blast
  have low: "map ascii_lower (ustr ''Ab'') = ustr ''ab''" by (simp add: ustr_def ascii_lower_def)
  from t c s1 have "F_s s1 = map (\<lambda>text. ?p (map ascii_lower text)) (text_records ?tl)" by blast
  then have f1: "F_s s1 = [[ustr ''ab'']]" by (simp add: text_records_def low)
  from t s2 have f2: "F_s s2 = [[ustr ''x'']]" by blast
  from t s1 s2 f1 f2 show ?thesis by simp
qed

lemma overview_fields:
  assumes "key_name \<noteq> ustr ''post''"
    and "extract_generic lower text_list regex key_name extracted = Inr s"
  shows "overview s (ustr ''num_posts'') = Some (IntV (int (length (text_records text_list)))) \<and>
         overview s (ustr ''num_'' @ key_name @ ustr ''s'') = Some (IntV (int (length (F_s_flat s)))) \<and>
         overview s (key_name @ ustr ''s'' @ ustr ''_per_post'') =
           Some (RatioV (of_nat (length (F_s_flat s)) / of_nat (length (text_records text_list)))) \<and>
         overview s (ustr ''unique_'' @ key_name @ ustr ''s'') =
           Some (IntV (int (card (set (F_s_flat s)))))"
  using overview_keys_distinct [OF assms(1)]
  unfolding extract_generic_fields(5) [OF assms(2)] make_overview_def
  by (auto simp: fun_upd_def)

text \<open>
  C7. For every non-empty record collection the \<open>overview\<close> is to hold the number of distinct
  matches, the number of matches, the number of records under \<open>num_posts\<close> and their ratio. The
  key of the number of matches is \<open>'num_' + key_name + 's'\<close>; for the feature name \<open>post\<close> it is
  \<open>num_posts\<close> again, and the dict display keeps the later entry: for the one record \<open>'a a'\<close>
  with the pattern \<open>a\<close>, \<open>num_posts\<close> is 2.
\<close>

theorem overview_post_collision:
  "\<exists>s. extract_generic (str_lower ascii_host) (Many [ustr ''a a''])
          (Compiled (re_findall ascii_host \<lparr>ignorecase = False, body = Chr (Lit 97)\<rparr>))
          (ustr ''post'') None = Inr s \<and>
       F_s s = [[MStr (ustr ''a''), MStr (ustr ''a'')]] \<and>
       length (text_records (Many [ustr ''a a''])) = 1 \<and>
       overview s (ustr ''num_posts'') = Some (IntV 2)"
proof -
  let ?tl = "Many [ustr ''a a'']"
  let ?p = "re_findall ascii_host \<lparr>ignorecase = False, body = Chr (Lit 97)\<rparr>"
  have ne: "text_records ?tl \<noteq> []" by (simp add: text_records_def)
  have c: "compile_arg (Compiled ?p) = Inr ?p" by (simp add: compile_arg_def)
  obtain s where s: "extract_generic (str_lower ascii_host) ?tl (Compiled ?p) (ustr ''post'') None = Inr s"
    using extract_generic_returns [OF ne c] by blast
  have ev: "?p (str_lower ascii_host (ustr ''a a'')) = [MStr (ustr ''a''), MStr (ustr ''a'')]"
    by code_simp
  have F: "F_s s = [[MStr (ustr ''a''), MStr (ustr ''a'')]]"
    using extract_generic_fields(6) [OF s _ c] by (simp add: not_extracted_def text_records_def ev)
  have flat: "F_s_flat s = [MStr (ustr ''a''), MStr (ustr ''a'')]"
    unfolding extract_generic_fields(1) [OF s] F by simp
  have "overview s (ustr ''num_posts'') = Some (IntV 2)"
    unfolding extract_generic_fields(5) [OF s] make_overview_def flat
    by (simp add: ustr_def)
  with s F show ?thesis by (auto simp: text_records_def)
qed

section \<open>Failing and succeeding maps\<close>

lemma try_map_Inr:
  "try_map f xs = Inr ys \<longleftrightarrow> list_all2 (\<lambda>x y. f x = Inr y) xs ys"
proof (induction xs arbitrary: ys)
  case Nil
  then show ?case by auto
next
  case (Cons x xs)
  show ?case
  proof (cases "f x")
    case (Inl e)
    then show ?thesis by (auto simp: list_all2_Cons1)
  next
    case (Inr y)
    show ?thesis
    proof (cases "try_map f xs")
      case (Inl e)
      with Cons.IH Inr show ?thesis by (auto simp: list_all2_Cons1)
    next
      case r: (Inr zs)
      with Cons.IH [of zs] Cons.IH Inr show ?thesis by (auto simp: list_all2_Cons1)
    qed
  qed
qed

lemma try_map_total:
  "(\<And>x. x \<in> set xs \<Longrightarrow> \<exists>y. f x = Inr y) \<Longrightarrow> \<exists>ys. try_map f xs = Inr ys"
proof (induction xs)
  case Nil
  then show ?case by simp
next
  case (Cons x xs)
  then obtain y ys where "f x = Inr y" "try_map f xs = Inr ys" by (meson list.set_intros)
  then show ?case by simp
qed

lemma try_map_fails:
  assumes "x \<in> set xs" and "f x = Inl e" and "\<And>x' e'. x' \<in> set xs \<Longrightarrow> f x' = Inl e' \<Longrightarrow> e' = e"
  shows "try_map f xs = Inl e"
  using assms
proof (induction xs)
  case Nil
  then show ?case by simp
next
  case (Cons a xs)
  show ?case
  proof (cases "f a")
    case (Inl e')
    with Cons.prems(3) [of a e'] show ?thesis by simp
  next
    case (Inr y)
    with Cons.prems have "x \<in> set xs" by auto
    from Cons.IH [OF this Cons.prems(2)] Cons.prems(3) have "try_map f xs = Inl e" by auto
    with Inr show ?thesis by simp
  qed
qed

section \<open>Emoji\<close>

text \<open>
  C9. If an emoji matched in the input is not a key of the taxonomy table, \<open>extract_emoji\<close>
  fails as a whole with the error of the lookup: it returns no summary, skips nothing and puts
  no value in the place of the missing entry.
\<close>

theorem emoji_missing_entry_fails:
  assumes "text \<in> set text_list"
    and "MStr em \<in> set (EMOJI (str_lower h text))"
    and "EMOJI_ENTRIES em = None"
  shows "extract_emoji h EMOJI EMOJI_ENTRIES text_list = Inl KeyError"
proof -
  let ?flat = "concat (map (\<lambda>text. EMOJI (str_lower h text)) text_list)"
  have mem: "MStr em \<in> set ?flat" using assms(1,2) by auto
  have miss: "emoji_lookup EMOJI_ENTRIES (MStr em) = Inl KeyError" using assms(3) by simp
  have only: "e = KeyError" if "emoji_lookup EMOJI_ENTRIES m = Inl e" for m e
    using that by (cases m) (auto split: option.splits)
  have "try_map (emoji_lookup EMOJI_ENTRIES) ?flat = Inl KeyError"
    using try_map_fails [of "MStr em" ?flat "emoji_lookup EMOJI_ENTRIES" KeyError] mem miss only
    by blast
  then show ?thesis by (simp add: extract_emoji_def Let_def)
qed

theorem emoji_missing_entry_fails_witness:
  "extract_emoji ascii_host (\<lambda>t. map (\<lambda>c. MStr [c]) (filter (\<lambda>c. 127 < c) t))
     [[128512] \<mapsto> \<lparr>entry_name = ustr ''grinning face'', entry_group = ustr ''Smileys & Emotion'',
                     entry_sub_group = ustr ''face-smiling''\<rparr>]
     [[104, 105, 32, 128512], [128512, 128570]] = Inl KeyError"
proof -
  let ?E = "\<lambda>t :: ustring. map (\<lambda>c. MStr [c]) (filter (\<lambda>c. 127 < c) t)"
  have 1: "[128512, 128570] \<in> set [[104, 105, 32, 128512], [128512, 128570 :: nat]]" by simp
  have 2: "MStr [128570] \<in> set (?E (str_lower ascii_host [128512, 128570]))"
    by (simp add: ascii_host_def ascii_lower_def)
  have 3: "[[128512] \<mapsto> \<lparr>entry_name = ustr ''grinning face'',
      entry_group = ustr ''Smileys & Emotion'', entry_sub_group = ustr ''face-smiling''\<rparr>]
      [128570 :: nat] = None" by simp
  let ?T = "[[128512] \<mapsto> \<lparr>entry_name = ustr ''grinning face'',
      entry_group = ustr ''Smileys & Emotion'', entry_sub_group = ustr ''face-smiling''\<rparr>]"
  show ?thesis
    using emoji_missing_entry_fails [of "[128512, 128570]" "[[104, 105, 32, 128512], [128512, 128570]]"
        "[128570]" ?E ascii_host ?T] 1 2 3
    by blast
qed

lemma extract_emoji_returns:
  assumes "text_list \<noteq> []"
    and "\<And>text m. text \<in> set text_list \<Longrightarrow> m \<in> set (EMOJI (str_lower h text)) \<Longrightarrow>
           \<exists>em. m = MStr em \<and> em \<in> dom EMOJI_ENTRIES"
  shows "\<exists>s. extract_emoji h EMOJI EMOJI_ENTRIES text_list = Inr s"
proof -
  let ?em = "map (\<lambda>text. EMOJI (str_lower h text)) text_list"
  have ok: "\<exists>y. emoji_lookup EMOJI_ENTRIES m = Inr y" if "m \<in> set (concat ?em)" for m
    using that assms(2) by fastforce
  from try_map_total [of "concat ?em" "emoji_lookup EMOJI_ENTRIES"] ok
  obtain es where es: "try_map (emoji_lookup EMOJI_ENTRIES) (concat ?em) = Inr es" by blast
  have "\<exists>ys. try_map (emoji_lookup EMOJI_ENTRIES) ms = Inr ys" if "ms \<in> set ?em" for ms
    using that ok by (intro try_map_total) auto
  from try_map_total [of ?em "try_map (emoji_lookup EMOJI_ENTRIES)"] this
  obtain per where per: "try_map (try_map (emoji_lookup EMOJI_ENTRIES)) ?em = Inr per" by blast
  show ?thesis using es per assms(1) by (simp add: extract_emoji_def Let_def)
qed

section \<open>URLs\<close>

lemma list_all2_rightD:
  "list_all2 P xs ys \<Longrightarrow> y \<in> set ys \<Longrightarrow> \<exists>x \<in> set xs. P x y"
  by (induction rule: list_all2_induct) auto

lemma normalized_urls_Inr:
  assumes "normalized_urls h URL text_list = Inr extracted"
  shows "list_all2 (list_all2 (\<lambda>m u. \<exists>w. m = MStr w \<and> u = MStr (prefix_http h w)))
           (map URL text_list) extracted"
proof -
  have "normalize_url h m = Inr u \<longleftrightarrow> (\<exists>w. m = MStr w \<and> u = MStr (prefix_http h w))" for m u
    by (cases m) auto
  with assms show ?thesis
    by (simp add: normalized_urls_def try_map_Inr)
qed

lemma extract_urls_Inr:
  assumes "extract_urls h netloc URL text_list = Inr s"
  shows "\<exists>extracted domains.
           normalized_urls h URL text_list = Inr extracted \<and>
           url_domains h netloc URL text_list = Inr domains \<and>
           text_list \<noteq> [] \<and>
           F_s s = extracted \<and> F_s_flat s = concat extracted \<and>
           top_domains s = sorted_by_reverse snd (Counter_items (concat domains))"
proof -
  from assms obtain extracted domains b where
    n: "normalized_urls h URL text_list = Inr extracted" and
    d: "url_domains h netloc URL text_list = Inr domains" and
    b: "extract_generic (str_lower h) (Many text_list) (Compiled URL) (ustr ''url'') (Some extracted)
          = Inr b" and
    s: "F_s s = F_s b" "F_s_flat s = F_s_flat b"
       "top_domains s = sorted_by_reverse snd (Counter_items (concat domains))"
    by (auto simp: extract_urls_def Let_def split: sum.splits)
  from extract_generic_Inr [OF b] have ne: "text_list \<noteq> []" by (simp add: text_records_def)
  have len: "length extracted = length text_list"
    using normalized_urls_Inr [OF n] by (auto dest: list_all2_lengthD)
  with ne have "\<not> not_extracted (Some extracted)" by (auto simp: not_extracted_def)
  from extract_generic_fields(7) [OF b this] extract_generic_fields(1) [OF b] s n d ne
  show ?thesis by simp
qed

text \<open>
  C5. In \<open>extract_urls\<close> every matched token that begins with \<open>www\<close> or \<open>ftp\<close>, in any case of
  the letters, gets the prefix \<open>http://\<close> before the summary is built, so that the per-record
  and the flat list of URLs hold the rewritten forms only; for the one record
  \<open>'two: http://a.com www.b.com'\<close> the URLs are \<open>http://a.com\<close> and \<open>http://www.b.com\<close>, and
  the host derived from the second is \<open>www.b.com\<close>.
\<close>

theorem urls_normalized:
  "(\<forall>s. extract_urls h netloc URL text_list = Inr s \<longrightarrow>
      list_all2 (list_all2 (\<lambda>m u. \<exists>w. m = MStr w \<and> u = MStr (prefix_http h w)))
        (map URL text_list) (F_s s) \<and>
      F_s_flat s = concat (F_s s) \<and>
      ((\<forall>x. take 3 (str_lower h (ustr ''http://'' @ x)) = ustr ''htt'') \<longrightarrow>
       (\<forall>u. MStr u \<in> set (F_s_flat s) \<longrightarrow>
          \<not> startswith (str_lower h u) (ustr ''www'') \<and>
          \<not> startswith (str_lower h u) (ustr ''ftp'')))) \<and>
   (URL' (ustr ''two: http://a.com www.b.com'') =
      [MStr (ustr ''http://a.com''), MStr (ustr ''www.b.com'')] \<longrightarrow>
    (\<exists>s. extract_urls ascii_host urlparse_netloc URL' [ustr ''two: http://a.com www.b.com''] = Inr s \<and>
         F_s s = [[MStr (ustr ''http://a.com''), MStr (ustr ''http://www.b.com'')]] \<and>
         F_s_flat s = [MStr (ustr ''http://a.com''), MStr (ustr ''http://www.b.com'')] \<and>
         url_domains ascii_host urlparse_netloc URL' [ustr ''two: http://a.com www.b.com'']
           = Inr [[ustr ''a.com'', ustr ''www.b.com'']] \<and>
         top_domains s = [(ustr ''a.com'', 1), (ustr ''www.b.com'', 1)]))"
proof (rule conjI)
  show "\<forall>s. extract_urls h netloc URL text_list = Inr s \<longrightarrow>
      list_all2 (list_all2 (\<lambda>m u. \<exists>w. m = MStr w \<and> u = MStr (prefix_http h w)))
        (map URL text_list) (F_s s) \<and>
      F_s_flat s = concat (F_s s) \<and>
      ((\<forall>x. take 3 (str_lower h (ustr ''http://'' @ x)) = ustr ''htt'') \<longrightarrow>
       (\<forall>u. MStr u \<in> set (F_s_flat s) \<longrightarrow>
          \<not> startswith (str_lower h u) (ustr ''www'') \<and>
          \<not> startswith (str_lower h u) (ustr ''ftp'')))"
  proof (intro allI impI)
    fix s assume s: "extract_urls h netloc URL text_list = Inr s"
    from extract_urls_Inr [OF s] obtain extracted where
      n: "normalized_urls h URL text_list = Inr extracted" and
      f: "F_s s = extracted" "F_s_flat s = concat extracted" by blast
    have all2: "list_all2 (list_all2 (\<lambda>m u. \<exists>w. m = MStr w \<and> u = MStr (prefix_http h w)))
          (map URL text_list) (F_s s)"
      using normalized_urls_Inr [OF n] f by simp
    have only: "\<not> startswith (str_lower h u) (ustr ''www'') \<and>
                \<not> startswith (str_lower h u) (ustr ''ftp'')"
      if low: "\<forall>x. take 3 (str_lower h (ustr ''http://'' @ x)) = ustr ''htt''"
        and u: "MStr u \<in> set (F_s_flat s)" for u
    proof -
      from u f obtain us where us: "us \<in> set (F_s s)" "MStr u \<in> set us" by auto
      from list_all2_rightD [OF all2 us(1)] obtain ms where
        "list_all2 (\<lambda>m u. \<exists>w. m = MStr w \<and> u = MStr (prefix_http h w)) ms us" by blast
      from list_all2_rightD [OF this us(2)] obtain w where w: "u = prefix_http h w" by auto
      have l3: "length (ustr ''www'') = 3" "length (ustr ''ftp'') = 3" by (simp_all add: ustr_def)
      have ne: "ustr ''htt'' \<noteq> ustr ''www''" "ustr ''htt'' \<noteq> ustr ''ftp''"
        by (simp_all add: ustr_def)
      have htt: "\<not> startswith (str_lower h (ustr ''http://'' @ w)) (ustr ''www'')"
        "\<not> startswith (str_lower h (ustr ''http://'' @ w)) (ustr ''ftp'')"
        unfolding startswith_def l3 low [rule_format] using ne by blast+
      show ?thesis
        using htt unfolding w prefix_http_def by (auto split: if_splits)
    qed
    from all2 f only
    show "list_all2 (list_all2 (\<lambda>m u. \<exists>w. m = MStr w \<and> u = MStr (prefix_http h w)))
        (map URL text_list) (F_s s) \<and>
      F_s_flat s = concat (F_s s) \<and>
      ((\<forall>x. take 3 (str_lower h (ustr ''http://'' @ x)) = ustr ''htt'') \<longrightarrow>
       (\<forall>u. MStr u \<in> set (F_s_flat s) \<longrightarrow>
          \<not> startswith (str_lower h u) (ustr ''www'') \<and>
          \<not> startswith (str_lower h u) (ustr ''ftp'')))"
      by blast
  qed
next
  let ?t = "ustr ''two: http://a.com www.b.com''"
  have ex: "\<exists>s. extract_urls ascii_host urlparse_netloc URL' [?t] = Inr s \<and>
         F_s s = [[MStr (ustr ''http://a.com''), MStr (ustr ''http://www.b.com'')]] \<and>
         F_s_flat s = [MStr (ustr ''http://a.com''), MStr (ustr ''http://www.b.com'')] \<and>
         url_domains ascii_host urlparse_netloc URL' [?t] = Inr [[ustr ''a.com'', ustr ''www.b.com'']] \<and>
         top_domains s = [(ustr ''a.com'', 1), (ustr ''www.b.com'', 1)]"
    if U: "URL' ?t = [MStr (ustr ''http://a.com''), MStr (ustr ''www.b.com'')]"
  proof -
  have p1: "prefix_http ascii_host (ustr ''http://a.com'') = ustr ''http://a.com''"
    by code_simp
  have p2: "prefix_http ascii_host (ustr ''www.b.com'') = ustr ''http://www.b.com''"
    by code_simp
  have n: "normalized_urls ascii_host URL' [?t] =
      Inr [[MStr (ustr ''http://a.com''), MStr (ustr ''http://www.b.com'')]]"
    by (simp add: normalized_urls_def U p1 p2)
  have d1: "urlparse_netloc (ustr ''http://a.com'') = Some (ustr ''a.com'')" by code_simp
  have d2: "urlparse_netloc (ustr ''http://www.b.com'') = Some (ustr ''www.b.com'')" by code_simp
  have d: "url_domains ascii_host urlparse_netloc URL' [?t] = Inr [[ustr ''a.com'', ustr ''www.b.com'']]"
    by (simp add: url_domains_def n d1 d2)
  have ne: "text_records (Many [?t]) \<noteq> []" by (simp add: text_records_def)
  have c: "compile_arg (Compiled URL') = Inr URL'" by (simp add: compile_arg_def)
  obtain b where b: "extract_generic (str_lower ascii_host) (Many [?t]) (Compiled URL') (ustr ''url'')
      (Some [[MStr (ustr ''http://a.com''), MStr (ustr ''http://www.b.com'')]]) = Inr b"
    using extract_generic_returns [OF ne c] by blast
  then obtain s where s: "extract_urls ascii_host urlparse_netloc URL' [?t] = Inr s"
    by (simp add: extract_urls_def n d Let_def)
  from extract_urls_Inr [OF s] n d
  have f: "F_s s = [[MStr (ustr ''http://a.com''), MStr (ustr ''http://www.b.com'')]]"
     "F_s_flat s = [MStr (ustr ''http://a.com''), MStr (ustr ''http://www.b.com'')]"
     "top_domains s = sorted_by_reverse snd (Counter_items [ustr ''a.com'', ustr ''www.b.com''])"
    by auto
  have ev: "sorted_by_reverse snd (Counter_items [ustr ''a.com'', ustr ''www.b.com'']) =
      [(ustr ''a.com'', 1), (ustr ''www.b.com'', 1)]"
    by code_simp
  from s f d ev show ?thesis by simp
  qed
  then show "URL' ?t = [MStr (ustr ''http://a.com''), MStr (ustr ''www.b.com'')] \<longrightarrow>
    (\<exists>s. extract_urls ascii_host urlparse_netloc URL' [?t] = Inr s \<and>
         F_s s = [[MStr (ustr ''http://a.com''), MStr (ustr ''http://www.b.com'')]] \<and>
         F_s_flat s = [MStr (ustr ''http://a.com''), MStr (ustr ''http://www.b.com'')] \<and>
         url_domains ascii_host urlparse_netloc URL' [?t] = Inr [[ustr ''a.com'', ustr ''www.b.com'']] \<and>
         top_domains s = [(ustr ''a.com'', 1), (ustr ''www.b.com'', 1)])"
    by blast
qed

theorem urls_normalized_witness:
  "\<exists>s. extract_urls ascii_host urlparse_netloc
          (\<lambda>t. map MStr (filter (\<lambda>w. 46 \<in> set w) (tokens ascii_space t)))
          [ustr ''two: http://a.com www.b.com''] = Inr s \<and>
       F_s s = [[MStr (ustr ''http://a.com''), MStr (ustr ''http://www.b.com'')]] \<and>
       F_s_flat s = [MStr (ustr ''http://a.com''), MStr (ustr ''http://www.b.com'')] \<and>
       top_domains s = [(ustr ''a.com'', 1), (ustr ''www.b.com'', 1)] \<and>
       \<not> startswith (str_lower ascii_host (ustr ''http://www.b.com'')) (ustr ''www'')"
proof -
  let ?URL = "\<lambda>t. map MStr (filter (\<lambda>w. 46 \<in> set w) (tokens ascii_space t))"
  let ?t = "ustr ''two: http://a.com www.b.com''"
  have U: "?URL ?t = [MStr (ustr ''http://a.com''), MStr (ustr ''www.b.com'')]"
    by code_simp
  have low: "\<forall>x. take 3 (str_lower ascii_host (ustr ''http://'' @ x)) = ustr ''htt''"
    by (simp add: ascii_host_def ustr_def ascii_lower_def)
  from urls_normalized [of ascii_host urlparse_netloc ?URL "[?t]" ?URL] U
  obtain s where s: "extract_urls ascii_host urlparse_netloc ?URL [?t] = Inr s"
    "F_s s = [[MStr (ustr ''http://a.com''), MStr (ustr ''http://www.b.com'')]]"
    "F_s_flat s = [MStr (ustr ''http://a.com''), MStr (ustr ''http://www.b.com'')]"
    "top_domains s = [(ustr ''a.com'', 1), (ustr ''www.b.com'', 1)]" by blast
  from urls_normalized [of ascii_host urlparse_netloc ?URL "[?t]" ?URL] s(1) low
  have "\<forall>u. MStr u \<in> set (F_s_flat s) \<longrightarrow> \<not> startswith (str_lower ascii_host u) (ustr ''www'')"
    by blast
  then have "\<not> startswith (str_lower ascii_host (ustr ''http://www.b.com'')) (ustr ''www'')"
    unfolding s(3) by simp
  with s show ?thesis by blast
qed

section \<open>Words\<close>

lemma extract_words_unfold:
  "extract_words h text_list words_to_extract entire_words_only =
     extract_generic (str_lower h) (Many (map (str_lower h) text_list))
       (Compiled (re_findall h
          \<lparr> ignorecase = True,
            body = alternation
              (if entire_words_only
               then map (\<lambda>x. Seq WordB (Seq (lit x) WordB))
                      (map (str_lower h) (text_records words_to_extract))
               else map (\<lambda>x. Seq (Rep NonSpace 0 None) (Seq (lit x) (Rep NonSpace 0 None)))
                      (map (str_lower h) (text_records words_to_extract))) \<rparr>))
       (ustr ''word'') None"
  by (simp only: extract_words_def Let_def)

text \<open>
  C4. For the one record \<open>'there is rain, it is raining'\<close> and the word \<open>rain\<close>,
  \<open>extract_words\<close> returns in whole-word mode the matches \<open>rain\<close> alone, and in substring
  mode the whole tokens that hold the word. The first of these tokens is \<open>rain,\<close> with its
  comma, a character that is not whitespace, where the claim (and the docstring of the function)
  has \<open>rain\<close>.
\<close>

theorem words_example:
  "(\<exists>s. extract_words ascii_host [ustr ''there is rain, it is raining''] (Many [ustr ''rain'']) True
          = Inr s \<and> F_s s = [[MStr (ustr ''rain'')]]) \<and>
   (\<exists>s. extract_words ascii_host [ustr ''there is rain, it is raining''] (Many [ustr ''rain'']) False
          = Inr s \<and> F_s s = [[MStr (ustr ''rain,''), MStr (ustr ''raining'')]])"
proof -
  let ?tl = "[ustr ''there is rain, it is raining'']"
  let ?low = "str_lower ascii_host"
  let ?W = "\<lparr> ignorecase = True,
            body = alternation (map (\<lambda>x. Seq WordB (Seq (lit x) WordB))
                      (map ?low (text_records (Many [ustr ''rain'']))) ) \<rparr>"
  let ?S = "\<lparr> ignorecase = True,
            body = alternation (map (\<lambda>x. Seq (Rep NonSpace 0 None) (Seq (lit x) (Rep NonSpace 0 None)))
                      (map ?low (text_records (Many [ustr ''rain'']))) ) \<rparr>"
  have ne: "text_records (Many (map ?low ?tl)) \<noteq> []" by (simp add: text_records_def)
  have evW: "map (\<lambda>text. re_findall ascii_host ?W (?low text)) (text_records (Many (map ?low ?tl)))
      = [[MStr (ustr ''rain'')]]"
    by code_simp
  have evS: "map (\<lambda>text. re_findall ascii_host ?S (?low text)) (text_records (Many (map ?low ?tl)))
      = [[MStr (ustr ''rain,''), MStr (ustr ''raining'')]]"
    by code_simp
  have cW: "compile_arg (Compiled (re_findall ascii_host ?W)) = Inr (re_findall ascii_host ?W)"
    and cS: "compile_arg (Compiled (re_findall ascii_host ?S)) = Inr (re_findall ascii_host ?S)"
    by (simp_all add: compile_arg_def)
  obtain s1 where s1: "extract_words ascii_host ?tl (Many [ustr ''rain'']) True = Inr s1"
    unfolding extract_words_unfold if_True using extract_generic_returns [OF ne cW] by blast
  obtain s2 where s2: "extract_words ascii_host ?tl (Many [ustr ''rain'']) False = Inr s2"
    unfolding extract_words_unfold if_False using extract_generic_returns [OF ne cS] by blast
  have n: "not_extracted (None :: pmatch list list option)" by (simp add: not_extracted_def)
  have "F_s s1 = [[MStr (ustr ''rain'')]]"
    using extract_generic_fields(6) [OF s1 [unfolded extract_words_unfold if_True] n cW]
    by (simp only: evW)
  moreover have "F_s s2 = [[MStr (ustr ''rain,''), MStr (ustr ''raining'')]]"
    using extract_generic_fields(6) [OF s2 [unfolded extract_words_unfold if_False] n cS]
    by (simp only: evS)
  ultimately show ?thesis using s1 s2 by blast
qed

section \<open>What \<open>findall\<close> returns\<close>

lemma findall_from_items:
  "m \<in> set (findall_from h p t pos ma) \<Longrightarrow>
   \<exists>s st. pos \<le> s \<and> s \<le> length t \<and>
          st \<in> set (matches h (ignorecase p) t (body p) (s, Map.empty)) \<and>
          m = match_item (body p) t s st"
proof (induction h p t pos ma rule: findall_from.induct)
  case (1 h p t pos ma)
  let ?res = "filter (\<lambda>(e, caps). \<not> (ma \<and> e = pos))
                (matches h (ignorecase p) t (body p) (pos, Map.empty))"
  from "1.prems" have le: "\<not> length t < pos"
    by (subst (asm) findall_from.simps) (auto split: if_splits)
  show ?case
  proof (cases ?res)
    case Nil
    with "1.prems" le have "m \<in> set (findall_from h p t (Suc pos) False)"
      by (subst (asm) findall_from.simps) simp
    from "1.IH"(1) [OF le Nil this] obtain s st where
      "Suc pos \<le> s" "s \<le> length t"
      "st \<in> set (matches h (ignorecase p) t (body p) (s, Map.empty))"
      "m = match_item (body p) t s st" by blast
    then show ?thesis by (intro exI [of _ s] exI [of _ st]) simp
  next
    case (Cons st rest)
    with "1.prems" le have m: "m = match_item (body p) t pos st \<or>
        m \<in> set (findall_from h p t (fst st) (fst st = pos))"
      by (subst (asm) findall_from.simps) simp
    have "st \<in> set ?res" using Cons by simp
    then have mem: "st \<in> set (matches h (ignorecase p) t (body p) (pos, Map.empty))" by simp
    then have ge: "pos \<le> fst st" using matches_mono [of "fst st" "snd st"] by simp
    from m show ?thesis
    proof
      assume "m = match_item (body p) t pos st"
      with mem le show ?thesis by (intro exI [of _ pos] exI [of _ st]) simp
    next
      assume "m \<in> set (findall_from h p t (fst st) (fst st = pos))"
      from "1.IH"(2) [OF le Cons this] obtain s st' where
        "fst st \<le> s" "s \<le> length t"
        "st' \<in> set (matches h (ignorecase p) t (body p) (s, Map.empty))"
        "m = match_item (body p) t s st'" by blast
      with ge show ?thesis by (intro exI [of _ s] exI [of _ st']) simp
    qed
  qed
qed

lemma matches_Rep_mem:
  "(e, caps') \<in> set (matches h ic t (Rep cc lo hi) (pos, caps)) \<longleftrightarrow>
     caps' = caps \<and>
     (\<exists>i. e = pos + i \<and> lo \<le> i \<and> i \<le> length (takeWhile (cmatch h ic cc) (drop pos t)) \<and>
          (case hi of None \<Rightarrow> True | Some k \<Rightarrow> i \<le> k))"
  by (cases hi) (auto simp: Let_def image_iff)

lemma findall_class:
  assumes "m \<in> set (re_findall h \<lparr>ignorecase = ic, body = Chr cc\<rparr> t)"
  shows "\<exists>c. m = MStr [c] \<and> cmatch h ic cc c"
proof -
  from findall_from_items [OF assms [unfolded re_findall_def]] obtain s st where
    st: "st \<in> set (matches h ic t (Chr cc) (s, Map.empty))" and
    m: "m = match_item (Chr cc) t s st" by auto
  from st have s: "s < length t" "cmatch h ic cc (t ! s)" "st = (Suc s, Map.empty)"
    by (auto split: if_splits)
  have "take (Suc 0) (drop s t) = [t ! s]"
    using s(1) by (simp add: take_Suc hd_drop_conv_nth)
  with m s show ?thesis by (simp add: match_item_def)
qed

lemma take_window:
  assumes "i < length ys"
  shows "take (i + 1 + j) ys = take i ys @ [ys ! i] @ take j (drop (Suc i) ys)"
proof -
  have "take (i + (1 + j)) ys = take i ys @ take (1 + j) (drop i ys)"
    by (rule take_add)
  moreover have "drop i ys = ys ! i # drop (Suc i) ys"
    using assms by (simp add: Cons_nth_drop_Suc)
  ultimately show ?thesis by (simp add: add.assoc)
qed

lemma findall_window:
  assumes "m \<in> set (re_findall h (surrounding_text_regex (Chr cc) left_chars right_chars) t)"
  shows "\<exists>pre a c b post. t = pre @ a @ [c] @ b @ post \<and> m = MStr (a @ [c] @ b) \<and>
           length a \<le> left_chars \<and> length b \<le> right_chars \<and> cmatch h False cc c"
proof -
  let ?any = "cmatch h False AnyChar"
  let ?W = "Seq (Rep AnyChar 0 (Some left_chars)) (Seq (Chr cc) (Rep AnyChar 0 (Some right_chars)))"
  have W: "ignorecase (surrounding_text_regex (Chr cc) left_chars right_chars) = False"
    "body (surrounding_text_regex (Chr cc) left_chars right_chars) = ?W"
    by (simp_all add: surrounding_text_regex_def)
  from findall_from_items [OF assms [unfolded re_findall_def]] obtain s st0 where
    st0: "st0 \<in> set (matches h False t ?W (s, Map.empty))" "m = match_item ?W t s st0"
    unfolding W by blast
  define e where "e = fst st0"
  define caps where "caps = snd st0"
  have st: "(e, caps) \<in> set (matches h False t ?W (s, Map.empty))"
    and m: "m = match_item ?W t s (e, caps)"
    using st0 unfolding e_def caps_def by simp_all
  from st obtain p1 c1 p2 c2 where
    r1: "(p1, c1) \<in> set (matches h False t (Rep AnyChar 0 (Some left_chars)) (s, Map.empty))" and
    ch: "(p2, c2) \<in> set (matches h False t (Chr cc) (p1, c1))" and
    r2: "(e, caps) \<in> set (matches h False t (Rep AnyChar 0 (Some right_chars)) (p2, c2))"
    by (auto simp del: matches.simps(2,3))
  from r1 obtain i where
    i: "i \<le> length (takeWhile ?any (drop s t))" "i \<le> left_chars" and p1: "p1 = s + i"
    unfolding matches_Rep_mem by auto
  from ch p1 have c: "s + i < length t" "cmatch h False cc (t ! (s + i))" and p2: "p2 = Suc (s + i)"
    by (auto split: if_splits)
  from r2 p2 obtain j where
    j: "j \<le> length (takeWhile ?any (drop (Suc (s + i)) t))" "j \<le> right_chars" and
    e: "e = s + i + 1 + j"
    unfolding matches_Rep_mem by auto
  let ?ys = "drop s t"
  have "length (takeWhile ?any (drop (Suc (s + i)) t)) \<le> length (drop (Suc (s + i)) t)"
    by (rule length_takeWhile_le)
  with j have jl: "j \<le> length t - Suc (s + i)" by simp
  have il: "i < length ?ys" using c(1) by simp
  have x: "take (e - s) ?ys = take i ?ys @ [?ys ! i] @ take j (drop (Suc i) ?ys)"
    unfolding e using take_window [OF il, of j] by (simp add: add.assoc)
  have "?ys = take (e - s) ?ys @ drop (e - s) ?ys" by (simp only: append_take_drop_id)
  then have t: "t = take s t @ take (e - s) ?ys @ drop (e - s) ?ys"
    by (metis append_take_drop_id)
  have "m = MStr (take (e - s) ?ys)" using m by (simp add: match_item_def)
  with x t have "t = take s t @ take i ?ys @ [?ys ! i] @ take j (drop (Suc i) ?ys) @ drop (e - s) ?ys"
    "m = MStr (take i ?ys @ [?ys ! i] @ take j (drop (Suc i) ?ys))"
    by simp_all
  moreover have "length (take i ?ys) \<le> left_chars" "length (take j (drop (Suc i) ?ys)) \<le> right_chars"
    using i j by simp_all
  moreover have "cmatch h False cc (?ys ! i)" using c by (simp add: add.commute)
  ultimately show ?thesis by blast
qed

section \<open>Intense words\<close>

lemma same_text_plain: "same_text h False a b \<longleftrightarrow> a = b"
  by (auto simp: same_text_def list_all2_eq [symmetric] dest: list_all2_lengthD)

lemma takeWhile_drop:
  "a \<le> length (takeWhile P u) \<Longrightarrow> takeWhile P (drop a u) = drop a (takeWhile P u)"
proof (induction u arbitrary: a)
  case Nil
  then show ?case by simp
next
  case (Cons x u)
  then show ?case by (cases a) (auto split: if_splits)
qed

lemma takeWhile_ge:
  assumes "\<And>j. j < c \<Longrightarrow> j < length v \<and> P (v ! j)"
  shows "c \<le> length (takeWhile P v)"
proof (rule ccontr)
  assume "\<not> c \<le> length (takeWhile P v)"
  then have lt: "length (takeWhile P v) < c" by simp
  with assms have "length (takeWhile P v) < length v" "P (v ! length (takeWhile P v))" by auto
  with nth_length_takeWhile [of P v] show False by simp
qed

lemma has_run_iff: "has_run k v \<longleftrightarrow> (\<exists>i < length v. take k (drop i v) = replicate k (v ! i))"
proof (induction v)
  case Nil
  then show ?case by simp
next
  case (Cons c v)
  have "(\<exists>i < length (c # v). take k (drop i (c # v)) = replicate k ((c # v) ! i)) \<longleftrightarrow>
        take k (c # v) = replicate k c \<or> (\<exists>i < length v. take k (drop i v) = replicate k (v ! i))"
    (is "?L \<longleftrightarrow> ?A \<or> ?B")
  proof
    assume ?L
    then obtain i where i: "i < length (c # v)" "take k (drop i (c # v)) = replicate k ((c # v) ! i)"
      by blast
    show "?A \<or> ?B"
    proof (cases i)
      case 0
      with i show ?thesis by simp
    next
      case (Suc j)
      with i show ?thesis by auto
    qed
  next
    assume "?A \<or> ?B"
    then show ?L
    proof
      assume ?A
      then show ?L by (intro exI [of _ 0]) simp
    next
      assume ?B
      then obtain i where "i < length v" "take k (drop i v) = replicate k (v ! i)" by blast
      then show ?L by (intro exI [of _ "Suc i"]) simp
    qed
  qed
  with Cons show ?case by simp
qed

lemma tokens_first:
  assumes "takeWhile (\<lambda>x. \<not> sp x) v \<noteq> []"
  shows "tokens sp v = takeWhile (\<lambda>x. \<not> sp x) v # tokens sp (dropWhile (\<lambda>x. \<not> sp x) v)"
  using assms by (cases v) (auto split: if_splits)

lemma dropWhile_none: "takeWhile P v = [] \<Longrightarrow> dropWhile P v = v"
  by (cases v) (auto split: if_splits)

lemma tokens_skip:
  assumes "\<not> has_run k (takeWhile (\<lambda>x. \<not> sp x) v)"
  shows "filter (has_run k) (tokens sp (drop (Suc 0) v)) = filter (has_run k) (tokens sp v)"
proof (cases v)
  case Nil
  then show ?thesis by simp
next
  case (Cons c cs)
  show ?thesis
  proof (cases "sp c")
    case True
    with Cons show ?thesis by simp
  next
    case False
    let ?ns = "\<lambda>x. \<not> sp x"
    from False Cons have tok: "takeWhile ?ns v = c # takeWhile ?ns cs" by simp
    with assms have no: "\<not> has_run k (takeWhile ?ns cs)" by simp
    have "filter (has_run k) (tokens sp cs) = filter (has_run k) (tokens sp (dropWhile ?ns cs))"
    proof (cases "takeWhile ?ns cs = []")
      case True
      then show ?thesis by (simp add: dropWhile_none)
    next
      case F: False
      from tokens_first [OF F] no show ?thesis by simp
    qed
    moreover have "filter (has_run k) (tokens sp v) = filter (has_run k) (tokens sp (dropWhile ?ns cs))"
      using Cons False assms tok by simp
    ultimately show ?thesis using Cons by simp
  qed
qed

lemma take_Suc_replicate:
  "take (Suc n) (drop q t) = replicate (Suc n) x \<longleftrightarrow>
     q < length t \<and> t ! q = x \<and> take n (drop (Suc q) t) = replicate n x"
proof (cases "q < length t")
  case True
  then have "drop q t = t ! q # drop (Suc q) t" by (simp add: Cons_nth_drop_Suc)
  with True show ?thesis by simp
next
  case False
  then show ?thesis by simp
qed

lemma matches_backrefs:
  assumes "caps 2 = Some [x]"
  shows "matches h False t (repeat_rx n (Backref 2)) (q, caps) =
           (if take n (drop q t) = replicate n x then [(q + n, caps)] else [])"
proof (induction n arbitrary: q)
  case 0
  then show ?case by simp
next
  case (Suc n)
  have one: "(q + 1 \<le> length t \<and> same_text h False (take 1 (drop q t)) [x]) \<longleftrightarrow>
             (q < length t \<and> t ! q = x)"
    using take_Suc_replicate [of 0 q t x] by (auto simp: same_text_plain)
  have "matches h False t (Backref 2) (q, caps) =
          (if q < length t \<and> t ! q = x then [(Suc q, caps)] else [])"
    using assms one by (simp del: same_text_plain)
  then show ?case
    using Suc.IH [of "Suc q"] take_Suc_replicate [of n q t x] by simp
qed

lemma matches_group2:
  "matches h False t (Grp 2 (Chr NonSpace)) (p, caps) =
     (if p < length t \<and> \<not> is_space h (t ! p) then [(Suc p, caps(2 \<mapsto> [t ! p]))] else [])"
proof (cases "p < length t")
  case True
  then have "drop p t = t ! p # drop (Suc p) t" by (simp add: Cons_nth_drop_Suc)
  then show ?thesis by simp
next
  case False
  then show ?thesis by simp
qed

lemma matches_group3:
  assumes "caps 2 = Some [x]"
  shows "matches h False t (Grp 3 (Seq (repeat_rx n (Backref 2)) (Rep NonSpace 0 None))) (q, caps) =
     (if take n (drop q t) = replicate n x
      then map (\<lambda>j. (q + n + j, caps(3 \<mapsto> take (n + j) (drop q t))))
             (rev [0 ..< Suc (length (takeWhile (\<lambda>c. \<not> is_space h c) (drop (q + n) t)))])
      else [])"
proof -
  have ns: "cmatch h False NonSpace = (\<lambda>c. \<not> is_space h c)" by (rule ext) simp
  note b = matches_backrefs [of caps x h t n q]
  show ?thesis
    using assms by (simp add: b Let_def ns add.assoc del: upt_Suc)
qed

text \<open>
  The matches of the pattern that give the first \<open>i\<close> characters from position \<open>s\<close> to group 1.
\<close>

definition intense_branch :: "host \<Rightarrow> ustring \<Rightarrow> nat \<Rightarrow> nat \<Rightarrow> nat \<Rightarrow> mstate list" where
  "intense_branch h t n s i =
     concat (map (matches h False t (Grp 3 (Seq (repeat_rx n (Backref 2)) (Rep NonSpace 0 None))))
       (matches h False t (Grp 2 (Chr NonSpace)) (s + i, [1 \<mapsto> take i (drop s t)])))"

lemma intense_branch_eq:
  "intense_branch h t n s i =
     (if s + i < length t \<and> \<not> is_space h (t ! (s + i)) \<and>
         take n (drop (Suc (s + i)) t) = replicate n (t ! (s + i))
      then map (\<lambda>j. (Suc (s + i) + n + j,
                      [1 \<mapsto> take i (drop s t), 2 \<mapsto> [t ! (s + i)],
                       3 \<mapsto> take (n + j) (drop (Suc (s + i)) t)]))
             (rev [0 ..< Suc (length (takeWhile (\<lambda>c. \<not> is_space h c) (drop (Suc (s + i) + n) t)))])
      else [])"
proof -
  let ?caps = "[1 \<mapsto> take i (drop s t), 2 \<mapsto> [t ! (s + i)]] :: nat \<rightharpoonup> ustring"
  have "?caps 2 = Some [t ! (s + i)]" by simp
  with matches_group3 [of ?caps "t ! (s + i)" h t n "Suc (s + i)"]
  have g3: "matches h False t (Grp 3 (Seq (repeat_rx n (Backref 2)) (Rep NonSpace 0 None)))
      (Suc (s + i), ?caps) =
     (if take n (drop (Suc (s + i)) t) = replicate n (t ! (s + i))
      then map (\<lambda>j. (Suc (s + i) + n + j, ?caps(3 \<mapsto> take (n + j) (drop (Suc (s + i)) t))))
             (rev [0 ..< Suc (length (takeWhile (\<lambda>c. \<not> is_space h c) (drop (Suc (s + i) + n) t)))])
      else [])"
    by blast
  show ?thesis
    unfolding intense_branch_def matches_group2
    by (simp add: g3 del: upt_Suc matches.simps One_nat_def)
qed

lemma intense_matches:
  "matches h False t (body (intense_regex min_reps)) (s, Map.empty) =
     concat (map (intense_branch h t (nat (min_reps - 1)) s)
       (rev [0 ..< Suc (length (takeWhile (\<lambda>c. \<not> is_space h c) (drop s t)))]))"
proof -
  have ns: "cmatch h False NonSpace = (\<lambda>c. \<not> is_space h c)" by (rule ext) simp
  have g1: "matches h False t (Grp 1 (Rep NonSpace 0 None)) (s, Map.empty) =
      map (\<lambda>i. (s + i, [1 \<mapsto> take i (drop s t)]))
        (rev [0 ..< Suc (length (takeWhile (\<lambda>c. \<not> is_space h c) (drop s t)))])"
    by (simp add: Let_def ns del: upt_Suc)
  have br: "(\<lambda>i. concat (map (matches h False t
        (Grp 3 (Seq (repeat_rx (nat (min_reps - 1)) (Backref 2)) (Rep NonSpace 0 None))))
        (matches h False t (Grp 2 (Chr NonSpace)) (s + i, [1 \<mapsto> take i (drop s t)])))) =
      intense_branch h t (nat (min_reps - 1)) s"
    by (rule ext) (simp only: intense_branch_def)
  show ?thesis
    unfolding intense_regex_def pattern.simps matches.simps(7) g1 map_map comp_def br ..
qed

lemma replicate_prefix_takeWhile:
  assumes "take c v = replicate c x" and "P x"
  shows "c \<le> length (takeWhile P v)"
proof (rule takeWhile_ge)
  fix j assume j: "j < c"
  from assms(1) have "length (take c v) = c" by simp
  then have c: "c \<le> length v" by simp
  with j have "v ! j = take c v ! j" by simp
  also have "\<dots> = x" using assms(1) j by simp
  finally show "j < length v \<and> P (v ! j)" using assms(2) j c by simp
qed

lemma take_takeWhile:
  "c \<le> length (takeWhile P v) \<Longrightarrow> take c (takeWhile P v) = take c v"
proof (induction v arbitrary: c)
  case Nil
  then show ?case by simp
next
  case (Cons x v)
  then show ?case by (cases c) (auto split: if_splits)
qed

text \<open>
  The condition under which the branch that gives the first \<open>i\<close> characters of the token to
  group 1 finds a match, read in the text and read in the token.
\<close>

lemma run_in_token:
  fixes t :: ustring
  defines "tok \<equiv> \<lambda>sp s. takeWhile (\<lambda>c. \<not> sp c) (drop s t)"
  assumes i: "i \<le> length (tok sp s)"
  shows "(s + i < length t \<and> \<not> sp (t ! (s + i)) \<and>
          take n (drop (Suc (s + i)) t) = replicate n (t ! (s + i))) \<longleftrightarrow>
         (i < length (tok sp s) \<and> take (Suc n) (drop i (tok sp s)) = replicate (Suc n) (tok sp s ! i))"
    (is "?T \<longleftrightarrow> ?K")
proof -
  let ?u = "drop s t"
  let ?tok = "tok sp s"
  have tok: "?tok = take (length ?tok) ?u"
    unfolding tok_def by (rule takeWhile_eq_take)
  have dtok: "drop i ?tok = takeWhile (\<lambda>c. \<not> sp c) (drop i ?u)"
    using takeWhile_drop [of i "\<lambda>c. \<not> sp c" ?u] i unfolding tok_def by simp
  show ?thesis
  proof
    assume T: ?T
    then have run: "take (Suc n) (drop (s + i) t) = replicate (Suc n) (t ! (s + i))"
      using take_Suc_replicate [of n "s + i" t "t ! (s + i)"] by blast
    from T have "Suc n \<le> length (takeWhile (\<lambda>c. \<not> sp c) (drop (s + i) t))"
      by (intro replicate_prefix_takeWhile [OF run]) simp
    then have le: "Suc n \<le> length (drop i ?tok)" using dtok by (simp add: add.commute)
    then have il: "i < length ?tok" by simp
    have "take (Suc n) (drop i ?tok) = take (Suc n) (takeWhile (\<lambda>c. \<not> sp c) (drop (s + i) t))"
      using dtok by (simp add: add.commute)
    also have "\<dots> = take (Suc n) (drop (s + i) t)"
      using le dtok by (intro take_takeWhile) (simp add: add.commute)
    finally have "take (Suc n) (drop i ?tok) = replicate (Suc n) (t ! (s + i))" using run by simp
    moreover have "?tok ! i = t ! (s + i)"
      using il T by (subst tok) simp
    ultimately show ?K using il by simp
  next
    assume K: ?K
    then have il: "i < length ?tok" by simp
    from K have "length (take (Suc n) (drop i ?tok)) = Suc n" by simp
    then have le: "Suc n \<le> length (drop i ?tok)" by simp
    have mem: "?tok ! i \<in> set ?tok" using il by simp
    then have nsp: "\<not> sp (?tok ! i)" unfolding tok_def by (auto dest: set_takeWhileD)
    have len: "length ?tok \<le> length ?u" unfolding tok_def by (rule length_takeWhile_le)
    with il have si: "s + i < length t" by simp
    have ti: "?tok ! i = t ! (s + i)" using il si by (subst tok) simp
    have "take (Suc n) (takeWhile (\<lambda>c. \<not> sp c) (drop (s + i) t)) = take (Suc n) (drop (s + i) t)"
      using le dtok by (intro take_takeWhile) (simp add: add.commute)
    then have "take (Suc n) (drop (s + i) t) = take (Suc n) (takeWhile (\<lambda>c. \<not> sp c) (drop (s + i) t))"
      by simp
    also have "\<dots> = take (Suc n) (drop i ?tok)" using dtok by (simp add: add.commute)
    finally have "take (Suc n) (drop (s + i) t) = replicate (Suc n) (t ! (s + i))"
      using K ti by simp
    then have "take n (drop (Suc (s + i)) t) = replicate n (t ! (s + i))"
      using take_Suc_replicate [of n "s + i" t "t ! (s + i)"] by blast
    with si nsp ti show ?T by simp
  qed
qed

lemma first_of_concat:
  assumes "\<exists>x \<in> set xs. f x \<noteq> []"
    and "\<And>x. x \<in> set xs \<Longrightarrow> f x \<noteq> [] \<Longrightarrow> R (hd (f x))"
  shows "concat (map f xs) \<noteq> [] \<and> R (hd (concat (map f xs)))"
  using assms
proof (induction xs)
  case Nil
  then show ?case by simp
next
  case (Cons a xs)
  show ?case
  proof (cases "f a = []")
    case True
    with Cons.prems have "\<exists>x \<in> set xs. f x \<noteq> []" by auto
    from Cons.IH [OF this] Cons.prems(2) True show ?thesis by simp
  next
    case False
    with Cons.prems(2) [of a] show ?thesis by simp
  qed
qed

lemma intense_branch_head:
  fixes t :: ustring
  defines "tok \<equiv> \<lambda>h s. takeWhile (\<lambda>c. \<not> is_space h c) (drop s t)"
  assumes i: "i \<le> length (tok h s)" and ne: "intense_branch h t n s i \<noteq> []"
  shows "fst (hd (intense_branch h t n s i)) = s + length (tok h s) \<and>
         group_text (snd (hd (intense_branch h t n s i))) 1 @
         group_text (snd (hd (intense_branch h t n s i))) 2 @
         group_text (snd (hd (intense_branch h t n s i))) 3 = tok h s"
proof -
  let ?ns = "\<lambda>c. \<not> is_space h c"
  let ?u = "drop s t"
  let ?tok = "tok h s"
  let ?L = "length ?tok"
  let ?m = "length (takeWhile ?ns (drop (Suc (s + i) + n) t))"
  let ?g = "\<lambda>j. (Suc (s + i) + n + j,
                 [1 \<mapsto> take i ?u, 2 \<mapsto> [t ! (s + i)], 3 \<mapsto> take (n + j) (drop (Suc (s + i)) t)])"
  from ne have T: "s + i < length t \<and> \<not> is_space h (t ! (s + i)) \<and>
      take n (drop (Suc (s + i)) t) = replicate n (t ! (s + i))"
    unfolding intense_branch_eq by (auto split: if_splits)
  then have br: "intense_branch h t n s i = map ?g (rev [0 ..< Suc ?m])"
    unfolding intense_branch_eq by simp
  have hd: "hd (intense_branch h t n s i) = ?g ?m"
    unfolding br by simp
  from T run_in_token [of i "is_space h" s t n] i
  have K: "i < ?L" "take (Suc n) (drop i ?tok) = replicate (Suc n) (?tok ! i)"
    unfolding tok_def by blast+
  from K(2) have "length (take (Suc n) (drop i ?tok)) = Suc n" by simp
  then have a: "Suc i + n \<le> ?L" by simp
  have "takeWhile ?ns (drop (Suc i + n) ?u) = drop (Suc i + n) ?tok"
    using takeWhile_drop [of "Suc i + n" ?ns ?u] a unfolding tok_def by blast
  moreover have "drop (Suc i + n) ?u = drop (Suc (s + i) + n) t" by (simp add: add.commute add.left_commute)
  ultimately have m: "?m = ?L - (Suc i + n)" by simp
  with a have e: "Suc (s + i) + n + ?m = s + ?L" by simp
  from T have si: "s + i < length t" by blast
  then have il: "i < length ?u" by simp
  have w: "take (i + 1 + (n + ?m)) ?u = take i ?u @ [?u ! i] @ take (n + ?m) (drop (Suc i) ?u)"
    by (rule take_window [OF il])
  have len: "i + 1 + (n + ?m) = ?L" using m a by linarith
  have tk: "take ?L ?u = ?tok" unfolding tok_def by (rule takeWhile_eq_take [symmetric])
  have ui: "?u ! i = t ! (s + i)" using si by simp
  have du: "drop (Suc i) ?u = drop (Suc (s + i)) t" by (simp add: add.commute)
  have cat: "take i ?u @ [t ! (s + i)] @ take (n + ?m) (drop (Suc (s + i)) t) = ?tok"
    using w unfolding len tk ui du by (rule sym)
  have g: "group_text (snd (?g ?m)) 1 = take i ?u" "group_text (snd (?g ?m)) 2 = [t ! (s + i)]"
    "group_text (snd (?g ?m)) 3 = take (n + ?m) (drop (Suc (s + i)) t)"
    by (simp_all add: group_text_def)
  have f: "fst (?g ?m) = s + ?L" using e by simp
  show ?thesis
    unfolding hd g f cat by simp
qed

lemma intense_branch_nonempty:
  assumes "i \<le> length (takeWhile (\<lambda>c. \<not> is_space h c) (drop s t))"
  shows "intense_branch h t n s i \<noteq> [] \<longleftrightarrow>
     i < length (takeWhile (\<lambda>c. \<not> is_space h c) (drop s t)) \<and>
     take (Suc n) (drop i (takeWhile (\<lambda>c. \<not> is_space h c) (drop s t))) =
       replicate (Suc n) (takeWhile (\<lambda>c. \<not> is_space h c) (drop s t) ! i)"
proof -
  have "intense_branch h t n s i \<noteq> [] \<longleftrightarrow>
      (s + i < length t \<and> \<not> is_space h (t ! (s + i)) \<and>
       take n (drop (Suc (s + i)) t) = replicate n (t ! (s + i)))"
    unfolding intense_branch_eq by simp
  then show ?thesis
    using run_in_token [of i "is_space h" s t n] assms by blast
qed

text \<open>
  The first match of the pattern of \<open>extract_intense_words\<close> at a position: none when the
  rest of the token at this position has no run, and otherwise a match that ends where the
  token ends and whose three groups make up the rest of the token.
\<close>

lemma intense_first:
  fixes t :: ustring
  defines "tok \<equiv> \<lambda>h s. takeWhile (\<lambda>c. \<not> is_space h c) (drop s t)"
  assumes "1 \<le> min_reps"
  shows "(has_run (nat min_reps) (tok h s) \<longrightarrow>
            (\<exists>caps rest. matches h False t (body (intense_regex min_reps)) (s, Map.empty) =
                 (s + length (tok h s), caps) # rest \<and>
               group_text caps 1 @ group_text caps 2 @ group_text caps 3 = tok h s)) \<and>
         (\<not> has_run (nat min_reps) (tok h s) \<longrightarrow>
            matches h False t (body (intense_regex min_reps)) (s, Map.empty) = [])"
proof -
  let ?n = "nat (min_reps - 1)"
  let ?tok = "tok h s"
  let ?L = "length ?tok"
  let ?f = "intense_branch h t ?n s"
  let ?xs = "rev [0 ..< Suc ?L]"
  have k: "nat min_reps = Suc ?n" using assms(2) by simp
  have m: "matches h False t (body (intense_regex min_reps)) (s, Map.empty) = concat (map ?f ?xs)"
    unfolding tok_def by (rule intense_matches)
  have xs: "i \<in> set ?xs \<longleftrightarrow> i \<le> ?L" for i by auto
  have ne: "?f i \<noteq> [] \<longleftrightarrow> i < ?L \<and> take (Suc ?n) (drop i ?tok) = replicate (Suc ?n) (?tok ! i)"
    if "i \<le> ?L" for i
    using intense_branch_nonempty [of i h s t ?n] that unfolding tok_def by blast
  have run: "has_run (nat min_reps) ?tok \<longleftrightarrow> (\<exists>i \<in> set ?xs. ?f i \<noteq> [])"
  proof
    assume "has_run (nat min_reps) ?tok"
    then obtain i where "i < ?L" "take (Suc ?n) (drop i ?tok) = replicate (Suc ?n) (?tok ! i)"
      unfolding k has_run_iff by blast
    with ne [of i] xs [of i] show "\<exists>i \<in> set ?xs. ?f i \<noteq> []" by (intro bexI [of _ i]) simp_all
  next
    assume "\<exists>i \<in> set ?xs. ?f i \<noteq> []"
    then obtain i where "i \<le> ?L" "?f i \<noteq> []" using xs by blast
    with ne [of i] show "has_run (nat min_reps) ?tok" unfolding k has_run_iff by blast
  qed
  let ?R = "\<lambda>st. fst st = s + ?L \<and>
                 group_text (snd st) 1 @ group_text (snd st) 2 @ group_text (snd st) 3 = ?tok"
  have head: "?R (hd (?f i))" if "i \<in> set ?xs" "?f i \<noteq> []" for i
    using intense_branch_head [of i h s t ?n] that xs [of i] unfolding tok_def by blast
  show ?thesis
  proof (intro conjI impI)
    assume "has_run (nat min_reps) ?tok"
    with run have ex: "\<exists>i \<in> set ?xs. ?f i \<noteq> []" by blast
    from first_of_concat [of ?xs ?f ?R, OF ex head]
    have c: "concat (map ?f ?xs) \<noteq> []" and r: "?R (hd (concat (map ?f ?xs)))" by blast+
    from c obtain st rest where sr: "concat (map ?f ?xs) = st # rest" by (cases "concat (map ?f ?xs)") auto
    with r have "?R st" by simp
    with sr m show "\<exists>caps rest. matches h False t (body (intense_regex min_reps)) (s, Map.empty) =
                 (s + ?L, caps) # rest \<and>
               group_text caps 1 @ group_text caps 2 @ group_text caps 3 = ?tok"
      by (cases st) auto
  next
    assume "\<not> has_run (nat min_reps) ?tok"
    with run have "\<forall>i \<in> set ?xs. ?f i = []" by blast
    then have "concat (map ?f ?xs) = []" by simp
    with m show "matches h False t (body (intense_regex min_reps)) (s, Map.empty) = []" by simp
  qed
qed

lemma groups_repeat_backref: "groups (repeat_rx n (Backref g)) = 0"
  by (induction n) simp_all

lemma intense_regex_parts:
  "ignorecase (intense_regex min_reps) = False"
  "groups (body (intense_regex min_reps)) = 3"
  by (simp_all add: intense_regex_def groups_repeat_backref)

lemma intense_item:
  "match_item (body (intense_regex min_reps)) t pos (e, caps) =
     MTuple [group_text caps 1, group_text caps 2, group_text caps 3]"
proof -
  have "[1 ..< Suc 3] = [1, 2, 3]" by (simp add: upt_rec)
  then show ?thesis
    unfolding match_item_def intense_regex_parts by simp
qed

lemma intense_findall_from:
  assumes "1 \<le> min_reps"
  shows "list_all2 (\<lambda>m tok. \<exists>g1 g2 g3. m = MTuple [g1, g2, g3] \<and> g1 @ g2 @ g3 = tok)
           (findall_from h (intense_regex min_reps) t pos ma)
           (filter (has_run (nat min_reps)) (tokens (is_space h) (drop pos t)))"
proof (induction h "intense_regex min_reps" t pos ma rule: findall_from.induct)
  case (1 h t pos ma)
  let ?p = "intense_regex min_reps"
  let ?ns = "\<lambda>c. \<not> is_space h c"
  let ?u = "drop pos t"
  let ?tok = "takeWhile ?ns ?u"
  let ?Q = "\<lambda>m tok. \<exists>g1 g2 g3. m = MTuple [g1, g2, g3] \<and> g1 @ g2 @ g3 = tok"
  show ?case
  proof (cases "length t < pos")
    case True
    then have "findall_from h ?p t pos ma = []" by (subst findall_from.simps) simp
    with True show ?thesis by simp
  next
    case False
    note first = intense_first [OF assms, where h = h and t = t and s = pos]
    show ?thesis
    proof (cases "has_run (nat min_reps) ?tok")
      case True
      with first obtain caps rest where
        m: "matches h False t (body ?p) (pos, Map.empty) = (pos + length ?tok, caps) # rest" and
        g: "group_text caps 1 @ group_text caps 2 @ group_text caps 3 = ?tok" by blast
      from True have ne: "?tok \<noteq> []" by auto
      then have adv: "pos + length ?tok \<noteq> pos" by simp
      let ?res = "filter (\<lambda>(e, caps). \<not> (ma \<and> e = pos)) (matches h (ignorecase ?p) t (body ?p) (pos, Map.empty))"
      have res: "?res = (pos + length ?tok, caps) # filter (\<lambda>(e, caps). \<not> (ma \<and> e = pos)) rest"
        unfolding intense_regex_parts m using adv by simp
      have unf: "findall_from h ?p t pos ma =
          MTuple [group_text caps 1, group_text caps 2, group_text caps 3] #
          findall_from h ?p t (pos + length ?tok) False"
        by (subst findall_from.simps) (simp only: False if_False res list.case intense_item fst_conv adv)
      from "1.hyps"(2) [OF False res] adv
      have IH: "list_all2 ?Q (findall_from h ?p t (pos + length ?tok) False)
          (filter (has_run (nat min_reps)) (tokens (is_space h) (drop (pos + length ?tok) t)))"
        by simp
      have "dropWhile ?ns ?u = drop (length ?tok) ?u" by (rule dropWhile_eq_drop)
      then have dw: "dropWhile ?ns ?u = drop (pos + length ?tok) t" by (simp add: add.commute)
      have tk: "filter (has_run (nat min_reps)) (tokens (is_space h) ?u) =
          ?tok # filter (has_run (nat min_reps)) (tokens (is_space h) (drop (pos + length ?tok) t))"
        unfolding tokens_first [OF ne] dw using True by simp
      show ?thesis
        unfolding unf tk using IH g by simp
    next
      case F: False
      with first have m: "matches h False t (body ?p) (pos, Map.empty) = []" by blast
      have res: "filter (\<lambda>(e, caps). \<not> (ma \<and> e = pos))
          (matches h (ignorecase ?p) t (body ?p) (pos, Map.empty)) = []"
        unfolding intense_regex_parts m by simp
      have unf: "findall_from h ?p t pos ma = findall_from h ?p t (Suc pos) False"
        by (subst findall_from.simps) (simp only: False if_False res list.case)
      from "1.hyps"(1) [OF False res]
      have IH: "list_all2 ?Q (findall_from h ?p t (Suc pos) False)
          (filter (has_run (nat min_reps)) (tokens (is_space h) (drop (Suc pos) t)))" .
      have "drop (Suc 0) ?u = drop (Suc pos) t" by simp
      with tokens_skip [OF F] have "filter (has_run (nat min_reps)) (tokens (is_space h) (drop (Suc pos) t))
          = filter (has_run (nat min_reps)) (tokens (is_space h) ?u)" by simp
      with IH show ?thesis unfolding unf by simp
    qed
  qed
qed

lemma has_run_replicate:
  assumes "0 < k"
  shows "has_run k v \<longleftrightarrow> (\<exists>pre c post. v = pre @ replicate k c @ post)"
proof
  assume "has_run k v"
  then obtain i where i: "i < length v" "take k (drop i v) = replicate k (v ! i)"
    unfolding has_run_iff by blast
  have "v = take i v @ take k (drop i v) @ drop k (drop i v)"
    by (simp only: append_take_drop_id)
  with i(2) show "\<exists>pre c post. v = pre @ replicate k c @ post" by metis
next
  assume "\<exists>pre c post. v = pre @ replicate k c @ post"
  then obtain pre c post where v: "v = pre @ replicate k c @ post" by blast
  have "length pre < length v" using v assms by simp
  moreover have "take k (drop (length pre) v) = replicate k c" unfolding v by simp
  moreover have "v ! length pre = c" unfolding v using assms by (simp add: nth_append)
  ultimately show "has_run k v" unfolding has_run_iff by blast
qed

lemma join_tuples:
  "list_all2 (\<lambda>m tok. \<exists>g1 g2 g3. m = MTuple [g1, g2, g3] \<and> g1 @ g2 @ g3 = tok) ms toks \<Longrightarrow>
   map join ms = map MStr toks"
  by (induction rule: list_all2_induct) auto

lemma extract_intense_words_returns:
  assumes "text_list \<noteq> []"
  shows "\<exists>s. extract_intense_words h text_list min_reps = Inr s \<and>
           F_s s = map (\<lambda>t. map join (re_findall h (intense_regex min_reps) t)) text_list"
proof -
  let ?p = "re_findall h (intense_regex min_reps)"
  let ?e = "map (\<lambda>t. map join (?p t)) text_list"
  have ne: "text_records (Many text_list) \<noteq> []" using assms by (simp add: text_records_def)
  have c: "compile_arg (Compiled ?p) = Inr ?p" by (simp add: compile_arg_def)
  have unf: "extract_intense_words h text_list min_reps =
      extract_generic (str_lower h) (Many text_list) (Compiled ?p) (ustr ''intense_word'') (Some ?e)"
    by (simp only: extract_intense_words_def Let_def)
  obtain s where s: "extract_generic (str_lower h) (Many text_list) (Compiled ?p)
      (ustr ''intense_word'') (Some ?e) = Inr s"
    using extract_generic_returns [OF ne c] by blast
  have "\<not> not_extracted (Some ?e)" using assms by (simp add: not_extracted_def)
  from extract_generic_fields(7) [OF s this] s unf show ?thesis by simp
qed

text \<open>
  C6. For every \<open>min_reps\<close> of at least 1, \<open>extract_intense_words\<close> reports a token exactly
  when some character stands in it at least \<open>min_reps\<close> times in a row (a run of \<open>min_reps\<close>
  equal characters being the least that counts); each match is the whole token, put together
  from the three groups of the pattern. With \<open>min_reps = 3\<close> the token \<open>soooo\<close> is reported and
  the token \<open>soo\<close> is not.
\<close>

theorem intense_words_detected:
  assumes "1 \<le> min_reps"
  shows "list_all2 (\<lambda>m tok. \<exists>g1 g2 g3. m = MTuple [g1, g2, g3] \<and> g1 @ g2 @ g3 = tok)
           (re_findall h (intense_regex min_reps) t)
           (filter (has_run (nat min_reps)) (tokens (is_space h) t)) \<and>
         (text_list \<noteq> [] \<longrightarrow>
            (\<exists>s. extract_intense_words h text_list min_reps = Inr s \<and>
                 F_s s = map (\<lambda>t. map MStr (filter (has_run (nat min_reps)) (tokens (is_space h) t)))
                           text_list)) \<and>
         (\<forall>tok :: ustring. has_run (nat min_reps) tok \<longleftrightarrow>
            (\<exists>pre c post. tok = pre @ replicate (nat min_reps) c @ post)) \<and>
         (\<exists>s. extract_intense_words ascii_host [ustr ''soooo soo''] 3 = Inr s \<and>
              F_s s = [[MStr (ustr ''soooo'')]])"
proof (intro conjI)
  have all: "list_all2 (\<lambda>m tok. \<exists>g1 g2 g3. m = MTuple [g1, g2, g3] \<and> g1 @ g2 @ g3 = tok)
           (re_findall h (intense_regex min_reps) t')
           (filter (has_run (nat min_reps)) (tokens (is_space h) t'))" for t'
    using intense_findall_from [OF assms, of h t' 0 False] by (simp add: re_findall_def)
  show "list_all2 (\<lambda>m tok. \<exists>g1 g2 g3. m = MTuple [g1, g2, g3] \<and> g1 @ g2 @ g3 = tok)
           (re_findall h (intense_regex min_reps) t)
           (filter (has_run (nat min_reps)) (tokens (is_space h) t))"
    by (rule all)
  show "text_list \<noteq> [] \<longrightarrow>
            (\<exists>s. extract_intense_words h text_list min_reps = Inr s \<and>
                 F_s s = map (\<lambda>t. map MStr (filter (has_run (nat min_reps)) (tokens (is_space h) t)))
                           text_list)"
  proof
    assume "text_list \<noteq> []"
    from extract_intense_words_returns [OF this, of h min_reps] obtain s where
      s: "extract_intense_words h text_list min_reps = Inr s"
         "F_s s = map (\<lambda>t. map join (re_findall h (intense_regex min_reps) t)) text_list" by blast
    have "map join (re_findall h (intense_regex min_reps) t') =
          map MStr (filter (has_run (nat min_reps)) (tokens (is_space h) t'))" for t'
      by (rule join_tuples [OF all])
    with s show "\<exists>s. extract_intense_words h text_list min_reps = Inr s \<and>
                 F_s s = map (\<lambda>t. map MStr (filter (has_run (nat min_reps)) (tokens (is_space h) t)))
                           text_list"
      by simp
  qed
  show "\<forall>tok :: ustring. has_run (nat min_reps) tok \<longleftrightarrow>
            (\<exists>pre c post. tok = pre @ replicate (nat min_reps) c @ post)"
  proof -
    have "0 < nat min_reps" using assms by simp
    then show ?thesis by (intro allI has_run_replicate)
  qed
  have ne: "[ustr ''soooo soo''] \<noteq> []" by simp
  from extract_intense_words_returns [OF ne, of ascii_host 3] obtain s where
    s: "extract_intense_words ascii_host [ustr ''soooo soo''] 3 = Inr s"
       "F_s s = map (\<lambda>t. map join (re_findall ascii_host (intense_regex 3) t)) [ustr ''soooo soo'']"
    by blast
  have "map (\<lambda>t. map join (re_findall ascii_host (intense_regex 3) t)) [ustr ''soooo soo''] =
      [[MStr (ustr ''soooo'')]]"
    by code_simp
  with s show "\<exists>s. extract_intense_words ascii_host [ustr ''soooo soo''] 3 = Inr s \<and>
              F_s s = [[MStr (ustr ''soooo'')]]"
    by simp
qed

theorem intense_words_detected_witness:
  "list_all2 (\<lambda>m tok. \<exists>g1 g2 g3. m = MTuple [g1, g2, g3] \<and> g1 @ g2 @ g3 = tok)
     (re_findall ascii_host (intense_regex 3) (ustr ''soooo soo  yeees''))
     [ustr ''soooo'', ustr ''yeees''] \<and>
   has_run 3 (ustr ''soooo'') \<and> \<not> has_run 3 (ustr ''soo'') \<and>
   (\<exists>s. extract_intense_words ascii_host [ustr ''soooo soo  yeees''] 3 = Inr s \<and>
        F_s s = [[MStr (ustr ''soooo''), MStr (ustr ''yeees'')]])"
proof -
  have m: "(1::int) \<le> 3" by simp
  have tk: "filter (has_run 3) (tokens (is_space ascii_host) (ustr ''soooo soo  yeees'')) =
      [ustr ''soooo'', ustr ''yeees'']"
    by code_simp
  have r: "has_run 3 (ustr ''soooo'')" "\<not> has_run 3 (ustr ''soo'')" by code_simp+
  note inst = intense_words_detected [OF m, of ascii_host "ustr ''soooo soo  yeees''"
      "[ustr ''soooo soo  yeees'']"]
  from inst [THEN conjunct1] inst [THEN conjunct2, THEN conjunct1] r
  show ?thesis by (simp add: tk)
qed

section \<open>Currency\<close>

text \<open>
  The ways in which the pattern of the context window matches from a position: \<open>i\<close> characters
  of context, a character of the set, \<open>j\<close> characters of context.
\<close>

lemma any_char: "cmatch h False AnyChar = (\<lambda>x. x \<noteq> 10)"
  by (rule ext) simp

lemma window_matches_mem:
  "(e, caps') \<in> set (matches h False t
      (Seq (Rep AnyChar 0 (Some l)) (Seq (Chr cc) (Rep AnyChar 0 (Some r)))) (s, caps)) \<longleftrightarrow>
   caps' = caps \<and>
   (\<exists>i j. i \<le> l \<and> i \<le> length (takeWhile (\<lambda>x. x \<noteq> 10) (drop s t)) \<and>
          s + i < length t \<and> cmatch h False cc (t ! (s + i)) \<and>
          j \<le> r \<and> j \<le> length (takeWhile (\<lambda>x. x \<noteq> 10) (drop (Suc (s + i)) t)) \<and>
          e = s + i + 1 + j)"
    (is "?L \<longleftrightarrow> ?R")
proof
  assume ?L
  then obtain p1 c1 p2 c2 where
    r1: "(p1, c1) \<in> set (matches h False t (Rep AnyChar 0 (Some l)) (s, caps))" and
    ch: "(p2, c2) \<in> set (matches h False t (Chr cc) (p1, c1))" and
    r2: "(e, caps') \<in> set (matches h False t (Rep AnyChar 0 (Some r)) (p2, c2))"
    by (auto simp del: matches.simps(2,3))
  from r1 obtain i where
    i: "i \<le> length (takeWhile (\<lambda>x. x \<noteq> 10) (drop s t))" "i \<le> l" and p1: "p1 = s + i" "c1 = caps"
    unfolding matches_Rep_mem any_char by auto
  from ch p1 have c: "s + i < length t" "cmatch h False cc (t ! (s + i))"
    and p2: "p2 = Suc (s + i)" "c2 = caps"
    by (auto split: if_splits)
  from r2 p2 obtain j where
    "j \<le> length (takeWhile (\<lambda>x. x \<noteq> 10) (drop (Suc (s + i)) t))" "j \<le> r"
    "e = s + i + 1 + j" "caps' = caps"
    unfolding matches_Rep_mem any_char by auto
  with i c show ?R by blast
next
  assume ?R
  then obtain i j where
    i: "i \<le> l" "i \<le> length (takeWhile (\<lambda>x. x \<noteq> 10) (drop s t))" and
    c: "s + i < length t" "cmatch h False cc (t ! (s + i))" and
    j: "j \<le> r" "j \<le> length (takeWhile (\<lambda>x. x \<noteq> 10) (drop (Suc (s + i)) t))" and
    e: "e = s + i + 1 + j" "caps' = caps" by blast
  have r1: "(s + i, caps) \<in> set (matches h False t (Rep AnyChar 0 (Some l)) (s, caps))"
    unfolding matches_Rep_mem any_char using i by simp
  have ch: "(Suc (s + i), caps) \<in> set (matches h False t (Chr cc) (s + i, caps))"
    using c by simp
  have r2: "(e, caps') \<in> set (matches h False t (Rep AnyChar 0 (Some r)) (Suc (s + i), caps))"
    unfolding matches_Rep_mem any_char using j e by simp
  from r1 ch r2 show ?L
    by (simp del: matches.simps(2,3)) blast
qed


text \<open>
  A record with one currency symbol and no newline: from a position \<open>s\<close> the pattern matches when
  the symbol is at most \<open>left_chars\<close> characters away, and the first match ends \<open>right_chars\<close>
  characters behind the symbol, or where the record ends.
\<close>

lemma single_symbol_at:
  assumes t: "t = pre @ [c] @ post" and c: "cur c"
    and rest: "\<forall>x \<in> set pre \<union> set post. \<not> cur x"
    and p: "p < length t"
  shows "cur (t ! p) \<longleftrightarrow> p = length pre"
proof (cases "p < length pre")
  case True
  then have "t ! p \<in> set pre" unfolding t by (simp add: nth_append)
  with rest True show ?thesis by auto
next
  case False
  show ?thesis
  proof (cases "p = length pre")
    case True
    then show ?thesis unfolding t using c by simp
  next
    case F: False
    with False p have "t ! p = post ! (p - Suc (length pre))" "p - Suc (length pre) < length post"
      unfolding t by (auto simp: nth_append nth_Cons')
    then have "t ! p \<in> set post" by simp
    with rest F show ?thesis by auto
  qed
qed

lemma single_symbol_none:
  assumes t: "t = pre @ [c] @ post" and c: "cur c"
    and rest: "\<forall>x \<in> set pre \<union> set post. \<not> cur x"
    and far: "\<not> (s \<le> length pre \<and> length pre - s \<le> l)"
  shows "matches h False t
      (Seq (Rep AnyChar 0 (Some l)) (Seq (Chr (CharSet cur)) (Rep AnyChar 0 (Some r)))) (s, caps) = []"
proof -
  let ?M = "matches h False t
      (Seq (Rep AnyChar 0 (Some l)) (Seq (Chr (CharSet cur)) (Rep AnyChar 0 (Some r)))) (s, caps)"
  have "set ?M = {}"
  proof (rule equals0I)
    fix st assume "st \<in> set ?M"
    then obtain i where i: "i \<le> l" "s + i < length t" "cur (t ! (s + i))"
      using window_matches_mem [of "fst st" "snd st" h t l "CharSet cur" r s caps] by auto
    from single_symbol_at [OF t c rest i(2)] i(3) have "s + i = length pre" by simp
    with i(1) far show False by simp
  qed
  then show ?thesis by (simp only: set_empty)
qed

lemma single_symbol_first:
  assumes t: "t = pre @ [c] @ post" and c: "cur c"
    and rest: "\<forall>x \<in> set pre \<union> set post. \<not> cur x"
    and nl: "\<forall>x \<in> set pre \<union> set post. x \<noteq> 10"
    and near: "s \<le> length pre" "length pre - s \<le> l"
  shows "\<exists>others. matches h False t
      (Seq (Rep AnyChar 0 (Some l)) (Seq (Chr (CharSet cur)) (Rep AnyChar 0 (Some r)))) (s, caps) =
      (Suc (length pre) + min (length post) r, caps) # others"
proof -
  let ?P = "length pre"
  let ?nn = "\<lambda>x :: nat. x \<noteq> 10"
  let ?m1 = "min (length (takeWhile ?nn (drop s t))) l"
  let ?m2 = "min (length post) r"
  let ?xs = "map (\<lambda>i. (s + i, caps)) (rev [0 ..< Suc ?m1])"
  let ?f = "matches h False t (Seq (Chr (CharSet cur)) (Rep AnyChar 0 (Some r)))"
  let ?M = "matches h False t
      (Seq (Rep AnyChar 0 (Some l)) (Seq (Chr (CharSet cur)) (Rep AnyChar 0 (Some r)))) (s, caps)"
  have Plt: "?P < length t" unfolding t by simp
  have r1: "matches h False t (Rep AnyChar 0 (Some l)) (s, caps) = ?xs"
    by (simp add: Let_def any_char del: upt_Suc)
  have M: "?M = concat (map ?f ?xs)"
    unfolding matches.simps(7) [of h False t "Rep AnyChar 0 (Some l)"] r1 ..
  have post: "drop (Suc ?P) t = post" unfolding t by simp
  have tw: "takeWhile ?nn post = post" using nl by (simp add: takeWhile_eq_all_conv)
  have m2: "min (length (takeWhile ?nn (drop (Suc ?P) t))) r = ?m2" unfolding post tw ..
  have at: "?f (?P, caps) = map (\<lambda>j. (Suc ?P + j, caps)) (rev [0 ..< Suc ?m2])"
  proof -
    have "cur (t ! ?P)" unfolding t using c by simp
    with Plt have "matches h False t (Chr (CharSet cur)) (?P, caps) = [(Suc ?P, caps)]" by simp
    then show ?thesis
      unfolding matches.simps(7) [of h False t "Chr (CharSet cur)"]
      by (simp add: Let_def any_char m2 del: upt_Suc matches.simps(2))
  qed
  have hd_at: "hd (?f (?P, caps)) = (Suc ?P + ?m2, caps)" "?f (?P, caps) \<noteq> []"
    unfolding at by simp_all
  have other: "?f (p, caps) = []" if "p \<noteq> ?P" for p
  proof -
    have "matches h False t (Chr (CharSet cur)) (p, caps) = []"
      using single_symbol_at [OF t c rest, of p] that by auto
    then show ?thesis
      unfolding matches.simps(7) [of h False t "Chr (CharSet cur)"] by simp
  qed
  have "?P - s \<le> length (takeWhile ?nn (drop s t))"
  proof (rule takeWhile_ge)
    fix j assume j: "j < ?P - s"
    then have "drop s t ! j = pre ! (s + j)" unfolding t by (simp add: nth_append)
    moreover from j have "pre ! (s + j) \<in> set pre" by simp
    ultimately show "j < length (drop s t) \<and> drop s t ! j \<noteq> 10"
      using nl j Plt by auto
  qed
  with near have "?P - s \<le> ?m1" by simp
  then have "?P - s < Suc ?m1" by (rule le_imp_less_Suc)
  then have "?P - s \<in> set (rev [0 ..< Suc ?m1])" by (simp only: set_rev set_upt atLeastLessThan_iff) simp
  then have "(s + (?P - s), caps) \<in> (\<lambda>i. (s + i, caps)) ` set (rev [0 ..< Suc ?m1])"
    by (rule imageI)
  then have "(s + (?P - s), caps) \<in> set ?xs" by (simp only: set_map)
  with near(1) have mem: "(?P, caps) \<in> set ?xs" by simp
  have ex: "\<exists>x \<in> set ?xs. ?f x \<noteq> []" using mem hd_at(2) by blast
  have hd: "hd (?f x) = (Suc ?P + ?m2, caps)" if "x \<in> set ?xs" "?f x \<noteq> []" for x
  proof -
    from that(1) obtain i where x: "x = (s + i, caps)" by auto
    with that(2) other [of "s + i"] have "s + i = ?P" by auto
    with x hd_at(1) show ?thesis by simp
  qed
  from first_of_concat [of ?xs ?f "\<lambda>st. st = (Suc ?P + ?m2, caps)", OF ex hd]
  have "?M \<noteq> []" "hd ?M = (Suc ?P + ?m2, caps)" unfolding M by blast+
  then have "?M = (Suc ?P + ?m2, caps) # tl ?M" by (metis list.collapse)
  then show ?thesis by blast
qed

lemma findall_from_skip:
  assumes "matches h (ignorecase p) t (body p) (pos, Map.empty) = []" and "pos \<le> length t"
  shows "findall_from h p t pos ma = findall_from h p t (Suc pos) False"
  using assms by (subst findall_from.simps) simp

lemma findall_from_step:
  assumes "matches h (ignorecase p) t (body p) (pos, Map.empty) = (e, caps) # others"
    and "pos \<le> length t" and "e \<noteq> pos"
  shows "findall_from h p t pos ma =
           match_item (body p) t pos (e, caps) # findall_from h p t e False"
  using assms by (subst findall_from.simps) simp

lemma findall_from_none:
  assumes "\<And>s. pos \<le> s \<Longrightarrow> matches h (ignorecase p) t (body p) (s, Map.empty) = []"
  shows "findall_from h p t pos ma = []"
proof -
  have "set (findall_from h p t pos ma) = {}"
  proof (rule equals0I)
    fix m assume "m \<in> set (findall_from h p t pos ma)"
    from findall_from_items [OF this] assms show False by fastforce
  qed
  then show ?thesis by (simp only: set_empty)
qed

text \<open>
  The window of a record that holds one currency symbol and no newline: the last
  \<open>left_chars\<close> characters before the symbol, the symbol, and the first \<open>right_chars\<close>
  characters behind it; fewer where the record begins or ends.
\<close>

lemma single_window:
  assumes t: "t = pre @ [c] @ post" and c: "cur c"
    and rest: "\<forall>x \<in> set pre \<union> set post. \<not> cur x"
    and nl: "\<forall>x \<in> set pre \<union> set post. x \<noteq> 10"
  shows "re_findall h
           \<lparr>ignorecase = False,
              body = Seq (Rep AnyChar 0 (Some l)) (Seq (Chr (CharSet cur)) (Rep AnyChar 0 (Some r)))\<rparr> t =
         [MStr (drop (length pre - l) pre @ [c] @ take r post)]"
proof -
  let ?W = "Seq (Rep AnyChar 0 (Some l)) (Seq (Chr (CharSet cur)) (Rep AnyChar 0 (Some r)))"
  let ?p = "\<lparr>ignorecase = False, body = ?W\<rparr>"
  let ?P = "length pre"
  let ?s0 = "?P - l"
  let ?m2 = "min (length post) r"
  let ?e = "Suc ?P + ?m2"
  have len: "length t = Suc (?P + length post)" unfolding t by simp
  have sel: "ignorecase ?p = False" "body ?p = ?W" by simp_all
  have none: "matches h (ignorecase ?p) t (body ?p) (s, Map.empty) = []"
    if "\<not> (s \<le> ?P \<and> ?P - s \<le> l)" for s
    unfolding sel by (rule single_symbol_none [OF t c rest that])
  have skip: "findall_from h ?p t (?s0 - d) False = findall_from h ?p t ?s0 False" if "d \<le> ?s0" for d
    using that
  proof (induction d)
    case 0
    then show ?case by simp
  next
    case (Suc d)
    then have far: "\<not> (?s0 - Suc d \<le> ?P \<and> ?P - (?s0 - Suc d) \<le> l)" by linarith
    have "findall_from h ?p t (?s0 - Suc d) False = findall_from h ?p t (Suc (?s0 - Suc d)) False"
      by (rule findall_from_skip [OF none [OF far]]) (use len Suc.prems in linarith)
    moreover have "Suc (?s0 - Suc d) = ?s0 - d" using Suc.prems by simp
    ultimately show ?case using Suc by simp
  qed
  have near: "?s0 \<le> ?P" "?P - ?s0 \<le> l" by simp_all
  from single_symbol_first [OF t c rest nl near, of h r Map.empty] obtain others where
    first: "matches h (ignorecase ?p) t (body ?p) (?s0, Map.empty) = (?e, Map.empty) # others"
    unfolding sel by blast
  have step: "findall_from h ?p t ?s0 False =
      match_item (body ?p) t ?s0 (?e, Map.empty) # findall_from h ?p t ?e False"
    by (rule findall_from_step [OF first]) (use len in simp_all)
  have after: "findall_from h ?p t ?e False = []"
    by (rule findall_from_none) (rule none, simp)
  have d: "drop ?s0 t = drop ?s0 pre @ [c] @ post" unfolding t by simp
  have "take (?e - ?s0) (drop ?s0 t) = drop ?s0 pre @ [c] @ take ?m2 post"
    unfolding d by (simp add: Suc_diff_le)
  moreover have "take ?m2 post = take r post" by (simp add: min_def)
  ultimately have item: "match_item (body ?p) t ?s0 (?e, Map.empty) =
      MStr (drop ?s0 pre @ [c] @ take r post)"
    unfolding sel by (simp add: match_item_def)
  have "re_findall h ?p t = findall_from h ?p t ?s0 False"
    unfolding re_findall_def using skip [of ?s0] by simp
  then show ?thesis unfolding step after item .
qed

lemma docstring_windows:
  assumes yes: "cur 36" "cur 163" "cur 8364" "cur 8383"
    and no: "\<forall>c \<in> set (ustr ''today 1 is around 4k and in &? no idea''). \<not> cur c"
  defines "W \<equiv> \<lambda>l r. \<lparr>ignorecase = False,
      body = Seq (Rep AnyChar 0 (Some l)) (Seq (Chr (CharSet cur)) (Rep AnyChar 0 (Some r)))\<rparr>"
  defines "p1 \<equiv> ustr ''today '' @ [8383] @ ustr ''1 is around $4k''"
    and "p2 \<equiv> ustr ''and '' @ [8383] @ ustr '' in '' @ [163] @ ustr '' & '' @ [8364] @ ustr ''?''"
    and "p3 \<equiv> ustr ''no idea''"
  shows "map (re_findall h (W 0 3)) [p1, p2, p3] =
           [[MStr ([8383] @ ustr ''1 i''), MStr (ustr ''$4k'')],
            [MStr ([8383] @ ustr '' in''), MStr ([163] @ ustr '' & ''), MStr ([8364] @ ustr ''?'')],
            []]"
    and "map (re_findall h (W 5 5)) [p1, p2, p3] =
           [[MStr (ustr ''oday '' @ [8383] @ ustr ''1 is ''), MStr (ustr ''ound $4k'')],
            [MStr (ustr ''and '' @ [8383] @ ustr '' in '' @ [163]), MStr (ustr '' & '' @ [8364] @ ustr ''?'')],
            []]"
    and "map (re_findall h (W 20 20)) [p1, p2, p3] = [[MStr p1], [MStr p2], []]"
proof -
  have c: "\<not> cur 116" "\<not> cur 111" "\<not> cur 100" "\<not> cur 97" "\<not> cur 121" "\<not> cur 32" "\<not> cur 49"
    "\<not> cur 105" "\<not> cur 115" "\<not> cur 114" "\<not> cur 117" "\<not> cur 110" "\<not> cur 52" "\<not> cur 107"
    "\<not> cur 38" "\<not> cur 63" "\<not> cur 101"
    using no by (simp_all add: ustr_def)
  show "map (re_findall h (W 0 3)) [p1, p2, p3] =
           [[MStr ([8383] @ ustr ''1 i''), MStr (ustr ''$4k'')],
            [MStr ([8383] @ ustr '' in''), MStr ([163] @ ustr '' & ''), MStr ([8364] @ ustr ''?'')],
            []]"
    unfolding W_def p1_def p2_def p3_def re_findall_def ustr_def
    by (simp add: yes c match_item_def findall_from.simps)
  show "map (re_findall h (W 5 5)) [p1, p2, p3] =
           [[MStr (ustr ''oday '' @ [8383] @ ustr ''1 is ''), MStr (ustr ''ound $4k'')],
            [MStr (ustr ''and '' @ [8383] @ ustr '' in '' @ [163]), MStr (ustr '' & '' @ [8364] @ ustr ''?'')],
            []]"
    unfolding W_def p1_def p2_def p3_def re_findall_def ustr_def
    by (simp add: yes c match_item_def findall_from.simps)
  show "map (re_findall h (W 20 20)) [p1, p2, p3] = [[MStr p1], [MStr p2], []]"
    unfolding W_def p1_def p2_def p3_def re_findall_def ustr_def
    by (simp add: yes c match_item_def findall_from.simps)
qed

lemma extract_currency_returns:
  assumes "text_list \<noteq> []" and "\<And>c. cur c \<Longrightarrow> name c \<noteq> None"
    and "left_chars < MAXREPEAT" and "right_chars < MAXREPEAT"
  shows "\<exists>s. extract_currency h name \<lparr>ignorecase = False, body = Chr (CharSet cur)\<rparr> CURRENCY_RAW
           text_list left_chars right_chars = Inr s \<and>
           surrounding_text s =
             map (re_findall h (surrounding_text_regex CURRENCY_RAW left_chars right_chars)) text_list"
proof -
  let ?C = "\<lparr>ignorecase = False, body = Chr (CharSet cur)\<rparr>"
  have ne: "text_records (Many text_list) \<noteq> []" using assms(1) by (simp add: text_records_def)
  have c: "compile_arg (Compiled (re_findall h ?C)) = Inr (re_findall h ?C)"
    by (simp add: compile_arg_def)
  obtain b where b: "extract_generic (str_lower h) (Many text_list) (Compiled (re_findall h ?C))
      (ustr ''currency_symbol'') None = Inr b"
    using extract_generic_returns [OF ne c] by blast
  have F: "F_s b = map (\<lambda>t. re_findall h ?C (str_lower h t)) text_list"
    using extract_generic_fields(6) [OF b _ c] by (simp add: not_extracted_def text_records_def)
  have one: "\<exists>y. char_name h name m = Inr y" if "ms \<in> set (F_s b)" "m \<in> set ms" for ms m
  proof -
    from that F obtain record_text where "m \<in> set (re_findall h ?C (str_lower h record_text))"
      by auto
    from findall_class [OF this] obtain c where "m = MStr [c]" "cur c" by auto
    with assms(2) [of c] show ?thesis by auto
  qed
  have "\<exists>ys. try_map (char_name h name) ms = Inr ys" if "ms \<in> set (F_s b)" for ms
    using one [OF that] by (intro try_map_total) auto
  from try_map_total [of "F_s b" "try_map (char_name h name)"] this
  obtain names where "try_map (try_map (char_name h name)) (F_s b) = Inr names" by blast
  with b assms(3,4) show ?thesis by (simp add: extract_currency_def)
qed

lemma example_window:
  assumes "cur 8383" "cur 36" "\<forall>c \<in> set (ustr ''today 1 is around 4k''). \<not> cur c"
  shows "re_findall h (surrounding_text_regex (Chr (CharSet cur)) 0 3)
           (ustr ''today '' @ [8383] @ ustr ''1 is around $4k'')
         = [MStr ([8383] @ ustr ''1 i''), MStr (ustr ''$4k'')]"
proof -
  have c: "\<not> cur 116" "\<not> cur 111" "\<not> cur 100" "\<not> cur 97" "\<not> cur 121" "\<not> cur 32" "\<not> cur 49"
    "\<not> cur 105" "\<not> cur 115" "\<not> cur 114" "\<not> cur 117" "\<not> cur 110" "\<not> cur 52" "\<not> cur 107"
    using assms(3) by (simp_all add: ustr_def)
  show ?thesis
    unfolding re_findall_def surrounding_text_regex_def ustr_def
    by (simp add: assms(1,2) c match_item_def findall_from.simps)
qed

lemma small_counts: "0 < MAXREPEAT" "3 < MAXREPEAT" "5 < MAXREPEAT" "20 < MAXREPEAT"
  by (simp_all add: MAXREPEAT_def)

text \<open>
  C8. \<open>extract_currency\<close> makes \<open>surrounding_text\<close> by applying to every record as it is, not
  lowercased, the pattern of up to \<open>left_chars\<close> characters, a currency symbol and up to
  \<open>right_chars\<close> characters; a window is a piece of the record, shorter where the record ends,
  never padded. Around the one currency symbol of a record without newline the window holds
  the last \<open>left_chars\<close> characters before the symbol and the first \<open>right_chars\<close> behind it.
  For the record \<open>'today B1 is around $4k'\<close> (\<open>B\<close> the bitcoin sign), no character to the left
  and three to the right the windows are \<open>'B1 i'\<close> and \<open>'$4k'\<close>; the three posts of the
  docstring give the windows of the docstring for the counts (0, 3), (5, 5) and (20, 20).
\<close>

theorem currency_surrounding_text:
  "(\<forall>s. extract_currency h name CURRENCY CURRENCY_RAW text_list left_chars right_chars = Inr s \<longrightarrow>
      left_chars < MAXREPEAT \<and> right_chars < MAXREPEAT \<and>
      surrounding_text s =
        map (re_findall h
              \<lparr>ignorecase = False,
                 body = Seq (Rep AnyChar 0 (Some left_chars))
                          (Seq CURRENCY_RAW (Rep AnyChar 0 (Some right_chars)))\<rparr>) text_list) \<and>
   (\<forall>t m. m \<in> set (re_findall h
              \<lparr>ignorecase = False,
                 body = Seq (Rep AnyChar 0 (Some left_chars))
                          (Seq (Chr cc) (Rep AnyChar 0 (Some right_chars)))\<rparr> t) \<longrightarrow>
      (\<exists>pre a c b post. t = pre @ a @ [c] @ b @ post \<and> m = MStr (a @ [c] @ b) \<and>
         length a \<le> left_chars \<and> length b \<le> right_chars \<and> cmatch h False cc c)) \<and>
   (\<forall>pre c post. cur c \<and> (\<forall>x \<in> set pre \<union> set post. \<not> cur x \<and> x \<noteq> 10) \<longrightarrow>
      re_findall h
        \<lparr>ignorecase = False,
           body = Seq (Rep AnyChar 0 (Some left_chars))
                    (Seq (Chr (CharSet cur)) (Rep AnyChar 0 (Some right_chars)))\<rparr>
        (pre @ [c] @ post) =
      [MStr (drop (length pre - left_chars) pre @ [c] @ take right_chars post)]) \<and>
   (cur 8383 \<and> cur 36 \<and> (\<forall>c \<in> set (ustr ''today 1 is around 4k''). \<not> cur c) \<and>
    (\<forall>c. cur c \<longrightarrow> name c \<noteq> None) \<longrightarrow>
      (\<exists>s. extract_currency h name \<lparr>ignorecase = False, body = Chr (CharSet cur)\<rparr> (Chr (CharSet cur))
              [ustr ''today '' @ [8383] @ ustr ''1 is around $4k''] 0 3 = Inr s \<and>
           surrounding_text s = [[MStr ([8383] @ ustr ''1 i''), MStr (ustr ''$4k'')]])) \<and>
   (cur 36 \<and> cur 163 \<and> cur 8364 \<and> cur 8383 \<and>
    (\<forall>c \<in> set (ustr ''today 1 is around 4k and in &? no idea''). \<not> cur c) \<and>
    (\<forall>c. cur c \<longrightarrow> name c \<noteq> None) \<longrightarrow>
      (\<exists>s. extract_currency h name \<lparr>ignorecase = False, body = Chr (CharSet cur)\<rparr> (Chr (CharSet cur))
              [ustr ''today '' @ [8383] @ ustr ''1 is around $4k'',
               ustr ''and '' @ [8383] @ ustr '' in '' @ [163] @ ustr '' & '' @ [8364] @ ustr ''?'',
               ustr ''no idea''] 0 3 = Inr s \<and>
           surrounding_text s =
             [[MStr ([8383] @ ustr ''1 i''), MStr (ustr ''$4k'')],
              [MStr ([8383] @ ustr '' in''), MStr ([163] @ ustr '' & ''), MStr ([8364] @ ustr ''?'')],
              []]) \<and>
      (\<exists>s. extract_currency h name \<lparr>ignorecase = False, body = Chr (CharSet cur)\<rparr> (Chr (CharSet cur))
              [ustr ''today '' @ [8383] @ ustr ''1 is around $4k'',
               ustr ''and '' @ [8383] @ ustr '' in '' @ [163] @ ustr '' & '' @ [8364] @ ustr ''?'',
               ustr ''no idea''] 5 5 = Inr s \<and>
           surrounding_text s =
             [[MStr (ustr ''oday '' @ [8383] @ ustr ''1 is ''), MStr (ustr ''ound $4k'')],
              [MStr (ustr ''and '' @ [8383] @ ustr '' in '' @ [163]),
               MStr (ustr '' & '' @ [8364] @ ustr ''?'')],
              []]) \<and>
      (\<exists>s. extract_currency h name \<lparr>ignorecase = False, body = Chr (CharSet cur)\<rparr> (Chr (CharSet cur))
              [ustr ''today '' @ [8383] @ ustr ''1 is around $4k'',
               ustr ''and '' @ [8383] @ ustr '' in '' @ [163] @ ustr '' & '' @ [8364] @ ustr ''?'',
               ustr ''no idea''] 20 20 = Inr s \<and>
           surrounding_text s =
             [[MStr (ustr ''today '' @ [8383] @ ustr ''1 is around $4k'')],
              [MStr (ustr ''and '' @ [8383] @ ustr '' in '' @ [163] @ ustr '' & '' @ [8364] @ ustr ''?'')],
              []]))"
  (is "?A \<and> ?B \<and> ?C \<and> ?D \<and> ?E")
proof (intro conjI)
  show ?A
    by (auto simp: extract_currency_def surrounding_text_regex_def split: sum.splits if_splits)
  show ?B
    using findall_window [where h = h and cc = cc and left_chars = left_chars
        and right_chars = right_chars, unfolded surrounding_text_regex_def]
    by blast
  show ?C
  proof (intro allI impI)
    fix pre c post
    assume a: "cur c \<and> (\<forall>x \<in> set pre \<union> set post. \<not> cur x \<and> x \<noteq> 10)"
    show "re_findall h
        \<lparr>ignorecase = False,
           body = Seq (Rep AnyChar 0 (Some left_chars))
                    (Seq (Chr (CharSet cur)) (Rep AnyChar 0 (Some right_chars)))\<rparr>
        (pre @ [c] @ post) =
      [MStr (drop (length pre - left_chars) pre @ [c] @ take right_chars post)]"
      by (rule single_window [OF refl]) (use a in simp_all)
  qed
  let ?Cur = "\<lparr>ignorecase = False, body = Chr (CharSet cur)\<rparr>"
  let ?p1 = "ustr ''today '' @ [8383] @ ustr ''1 is around $4k''"
  let ?p2 = "ustr ''and '' @ [8383] @ ustr '' in '' @ [163] @ ustr '' & '' @ [8364] @ ustr ''?''"
  let ?p3 = "ustr ''no idea''"
  show ?D
  proof
    assume a: "cur 8383 \<and> cur 36 \<and> (\<forall>c \<in> set (ustr ''today 1 is around 4k''). \<not> cur c) \<and>
           (\<forall>c. cur c \<longrightarrow> name c \<noteq> None)"
    from a extract_currency_returns [where text_list = "[?p1]" and cur = cur and name = name
        and left_chars = 0 and right_chars = 3 and h = h and CURRENCY_RAW = "Chr (CharSet cur)"]
      small_counts
    obtain s where s: "extract_currency h name ?Cur (Chr (CharSet cur)) [?p1] 0 3 = Inr s"
      "surrounding_text s = map (re_findall h (surrounding_text_regex (Chr (CharSet cur)) 0 3)) [?p1]"
      by auto
    from a example_window [where cur = cur and h = h] have
      "re_findall h (surrounding_text_regex (Chr (CharSet cur)) 0 3) ?p1 =
         [MStr ([8383] @ ustr ''1 i''), MStr (ustr ''$4k'')]" by blast
    with s show "\<exists>s. extract_currency h name ?Cur (Chr (CharSet cur)) [?p1] 0 3 = Inr s \<and>
           surrounding_text s = [[MStr ([8383] @ ustr ''1 i''), MStr (ustr ''$4k'')]]"
      by simp
  qed
  show ?E
  proof
    assume a: "cur 36 \<and> cur 163 \<and> cur 8364 \<and> cur 8383 \<and>
      (\<forall>c \<in> set (ustr ''today 1 is around 4k and in &? no idea''). \<not> cur c) \<and>
      (\<forall>c. cur c \<longrightarrow> name c \<noteq> None)"
    then have yes: "cur 36" "cur 163" "cur 8364" "cur 8383"
      and no: "\<forall>c \<in> set (ustr ''today 1 is around 4k and in &? no idea''). \<not> cur c"
      and named: "\<And>c. cur c \<Longrightarrow> name c \<noteq> None" by blast+
    note w = docstring_windows [OF yes no, where h = h, folded surrounding_text_regex_def]
    have ne: "[?p1, ?p2, ?p3] \<noteq> []" by simp
    have ex: "\<exists>s. extract_currency h name ?Cur (Chr (CharSet cur)) [?p1, ?p2, ?p3] l r = Inr s \<and>
        surrounding_text s = v"
      if "l < MAXREPEAT" "r < MAXREPEAT"
        "map (re_findall h (surrounding_text_regex (Chr (CharSet cur)) l r)) [?p1, ?p2, ?p3] = v"
      for l r v
      using extract_currency_returns [OF ne named that(1,2),
          where h = h and CURRENCY_RAW = "Chr (CharSet cur)"] that(3)
      by auto
    from ex [OF small_counts(1,2) w(1)] ex [OF small_counts(3,3) w(2)] ex [OF small_counts(4,4) w(3)]
    show "(\<exists>s. extract_currency h name ?Cur (Chr (CharSet cur)) [?p1, ?p2, ?p3] 0 3 = Inr s \<and>
           surrounding_text s =
             [[MStr ([8383] @ ustr ''1 i''), MStr (ustr ''$4k'')],
              [MStr ([8383] @ ustr '' in''), MStr ([163] @ ustr '' & ''), MStr ([8364] @ ustr ''?'')],
              []]) \<and>
      (\<exists>s. extract_currency h name ?Cur (Chr (CharSet cur)) [?p1, ?p2, ?p3] 5 5 = Inr s \<and>
           surrounding_text s =
             [[MStr (ustr ''oday '' @ [8383] @ ustr ''1 is ''), MStr (ustr ''ound $4k'')],
              [MStr (ustr ''and '' @ [8383] @ ustr '' in '' @ [163]),
               MStr (ustr '' & '' @ [8364] @ ustr ''?'')],
              []]) \<and>
      (\<exists>s. extract_currency h name ?Cur (Chr (CharSet cur)) [?p1, ?p2, ?p3] 20 20 = Inr s \<and>
           surrounding_text s = [[MStr ?p1], [MStr ?p2], []])"
      by blast
  qed
qed

theorem currency_surrounding_text_witness:
  "(\<exists>s. extract_currency ascii_host
          (\<lambda>c. if c = 36 then Some (ustr ''DOLLAR SIGN'')
                else if c = 163 then Some (ustr ''POUND SIGN'')
                else if c = 8364 then Some (ustr ''EURO SIGN'')
                else if c = 8383 then Some (ustr ''BITCOIN SIGN'') else None)
          \<lparr>ignorecase = False, body = Chr (CharSet (\<lambda>c. c = 36 \<or> c = 163 \<or> c = 8364 \<or> c = 8383))\<rparr>
          (Chr (CharSet (\<lambda>c. c = 36 \<or> c = 163 \<or> c = 8364 \<or> c = 8383)))
          [ustr ''Pay US$5 NOW''] 2 3 = Inr s \<and>
       surrounding_text s = [[MStr (ustr ''US$5 N'')]]) \<and>
   (\<exists>s. extract_currency ascii_host
          (\<lambda>c. if c = 36 then Some (ustr ''DOLLAR SIGN'')
                else if c = 163 then Some (ustr ''POUND SIGN'')
                else if c = 8364 then Some (ustr ''EURO SIGN'')
                else if c = 8383 then Some (ustr ''BITCOIN SIGN'') else None)
          \<lparr>ignorecase = False, body = Chr (CharSet (\<lambda>c. c = 36 \<or> c = 163 \<or> c = 8364 \<or> c = 8383))\<rparr>
          (Chr (CharSet (\<lambda>c. c = 36 \<or> c = 163 \<or> c = 8364 \<or> c = 8383)))
          [ustr ''today '' @ [8383] @ ustr ''1 is around $4k''] 0 3 = Inr s \<and>
       surrounding_text s = [[MStr ([8383] @ ustr ''1 i''), MStr (ustr ''$4k'')]]) \<and>
   (\<exists>s. extract_currency ascii_host
          (\<lambda>c. if c = 36 then Some (ustr ''DOLLAR SIGN'')
                else if c = 163 then Some (ustr ''POUND SIGN'')
                else if c = 8364 then Some (ustr ''EURO SIGN'')
                else if c = 8383 then Some (ustr ''BITCOIN SIGN'') else None)
          \<lparr>ignorecase = False, body = Chr (CharSet (\<lambda>c. c = 36 \<or> c = 163 \<or> c = 8364 \<or> c = 8383))\<rparr>
          (Chr (CharSet (\<lambda>c. c = 36 \<or> c = 163 \<or> c = 8364 \<or> c = 8383)))
          [ustr ''today '' @ [8383] @ ustr ''1 is around $4k'',
           ustr ''and '' @ [8383] @ ustr '' in '' @ [163] @ ustr '' & '' @ [8364] @ ustr ''?'',
           ustr ''no idea''] 5 5 = Inr s \<and>
       surrounding_text s =
         [[MStr (ustr ''oday '' @ [8383] @ ustr ''1 is ''), MStr (ustr ''ound $4k'')],
          [MStr (ustr ''and '' @ [8383] @ ustr '' in '' @ [163]),
           MStr (ustr '' & '' @ [8364] @ ustr ''?'')],
          []])"
proof -
  let ?cur = "\<lambda>c :: nat. c = 36 \<or> c = 163 \<or> c = 8364 \<or> c = 8383"
  let ?name = "\<lambda>c :: nat. if c = 36 then Some (ustr ''DOLLAR SIGN'')
                else if c = 163 then Some (ustr ''POUND SIGN'')
                else if c = 8364 then Some (ustr ''EURO SIGN'')
                else if c = 8383 then Some (ustr ''BITCOIN SIGN'') else None"
  let ?C = "\<lparr>ignorecase = False, body = Chr (CharSet ?cur)\<rparr>"
  let ?tl = "[ustr ''Pay US$5 NOW'']"
  note inst = currency_surrounding_text [where h = ascii_host and name = ?name and CURRENCY = ?C
      and CURRENCY_RAW = "Chr (CharSet ?cur)" and text_list = ?tl and left_chars = 2
      and right_chars = 3 and cc = "CharSet ?cur" and cur = ?cur]
  note A = inst [THEN conjunct1]
  note C = inst [THEN conjunct2, THEN conjunct2, THEN conjunct1]
  note D = inst [THEN conjunct2, THEN conjunct2, THEN conjunct2, THEN conjunct1]
  note E = inst [THEN conjunct2, THEN conjunct2, THEN conjunct2, THEN conjunct2]
  have named: "?cur c \<Longrightarrow> ?name c \<noteq> None" for c
    by (elim disjE) simp_all
  have named_all: "\<forall>c. ?cur c \<longrightarrow> ?name c \<noteq> None"
    by (intro allI impI) (elim disjE, simp_all)
  have b: "(2::nat) < MAXREPEAT" "(3::nat) < MAXREPEAT" by (simp_all add: MAXREPEAT_def)
  have ne: "?tl \<noteq> []" by simp
  have "\<exists>s. extract_currency ascii_host ?name ?C (Chr (CharSet ?cur)) ?tl 2 3 = Inr s \<and>
           surrounding_text s =
             map (re_findall ascii_host (surrounding_text_regex (Chr (CharSet ?cur)) 2 3)) ?tl"
    by (rule extract_currency_returns [OF ne named b])
  then obtain s where s: "extract_currency ascii_host ?name ?C (Chr (CharSet ?cur)) ?tl 2 3 = Inr s"
    by (elim exE conjE)
  have single: "?cur 36 \<and> (\<forall>x \<in> set (ustr ''Pay US'') \<union> set (ustr ''5 NOW''). \<not> ?cur x \<and> x \<noteq> 10)"
    by (simp add: ustr_def)
  have txt_eq: "ustr ''Pay US'' @ [36] @ ustr ''5 NOW'' = ustr ''Pay US$5 NOW''"
    by (simp add: ustr_def)
  have win: "drop (length (ustr ''Pay US'') - 2) (ustr ''Pay US'') @ [36] @ take 3 (ustr ''5 NOW'')
      = ustr ''US$5 N''"
    by (simp add: ustr_def)
  have f: "re_findall ascii_host
       \<lparr>ignorecase = False,
          body = Seq (Rep AnyChar 0 (Some 2)) (Seq (Chr (CharSet ?cur)) (Rep AnyChar 0 (Some 3)))\<rparr>
       (ustr ''Pay US$5 NOW'') = [MStr (ustr ''US$5 N'')]"
    using C [rule_format, OF single] unfolding txt_eq win .
  have st: "surrounding_text s = [[MStr (ustr ''US$5 N'')]]"
    using A [rule_format, OF s, THEN conjunct2, THEN conjunct2] unfolding list.map f .
  have preD: "?cur 8383 \<and> ?cur 36 \<and> (\<forall>c \<in> set (ustr ''today 1 is around 4k''). \<not> ?cur c) \<and>
        (\<forall>c. ?cur c \<longrightarrow> ?name c \<noteq> None)"
    using named_all by (simp add: ustr_def)
  have preE: "?cur 36 \<and> ?cur 163 \<and> ?cur 8364 \<and> ?cur 8383 \<and>
        (\<forall>c \<in> set (ustr ''today 1 is around 4k and in &? no idea''). \<not> ?cur c) \<and>
        (\<forall>c. ?cur c \<longrightarrow> ?name c \<noteq> None)"
    using named_all by (simp add: ustr_def)
  note d = D [rule_format, OF preD]
  note e = E [rule_format, OF preE, THEN conjunct2, THEN conjunct1]
  have one: "\<exists>s. extract_currency ascii_host ?name ?C (Chr (CharSet ?cur)) ?tl 2 3 = Inr s \<and>
       surrounding_text s = [[MStr (ustr ''US$5 N'')]]"
    using s st by (intro exI [of _ s] conjI)
  show ?thesis
    by (rule conjI [OF one conjI [OF d e]])
qed

end
